theory Spec2Isabelle
  imports Complex_Main
begin

section \<open>Numbers, errors and the statistics collaborator\<close>

text \<open>
  The program is the JavaScript module \<open>divinator\<close> (version 3.1.0): the class \<open>Zone\<close> and the
  functions \<open>validate\<close>, \<open>patterns\<close> and \<open>collapse\<close>. A JavaScript number is modelled as a
  real: the samples the development is about hold finite numbers only, and a finite double
  is a real number. An exception of the source is the \<open>Inl\<close> branch of a sum type.
\<close>

text \<open>
  The arithmetic of JavaScript is double arithmetic: the result of \<open>+\<close>, \<open>-\<close> or \<open>*\<close> is the
  exact result rounded to a double. In the constructor of \<open>Zone\<close>, where the zone bounds are
  computed, this rounding is a parameter \<open>rd\<close> of the model, and no fact about it is used
  unless a statement names it: that it is monotone (\<open>mono rd\<close>), that it leaves zero
  unchanged (\<open>rd 0 = 0\<close>), that it leaves a value that is a double unchanged (\<open>rd m = m\<close>).
  The rounding of IEEE 754 has these properties as long as no result overflows. \<open>exact\<close> is
  the rounding that changes nothing; it is the arithmetic on values whose sums,
  differences and products are doubles again, small integers for instance. The sigma pairs
  of the report and the test \<open>z[ i ] === prev + 1\<close> of \<open>collapse\<close> are written with the exact
  operations: the development evaluates them on such values only.
\<close>

type_synonym number = real

datatype error = Error string | TypeError

definition exact :: "number \<Rightarrow> number" where
  "exact x = x"

text \<open>
  On a number, \<open>parseFloat\<close> gives the number back and \<open>Number.isFinite\<close> holds
  (the type has no NaN and no infinity).
\<close>

definition parseFloat :: "number \<Rightarrow> number" where
  "parseFloat x = x"

definition Number_isFinite :: "number \<Rightarrow> bool" where
  "Number_isFinite x = True"

text \<open>
  \<open>validate\<close>: the argument is an array (the first test of the source, \<open>!data ||
  !Array.isArray(data)\<close>, is false for every array, the empty one included); it is mapped
  through \<open>parseFloat\<close> and refused when no element is a finite number.
\<close>

definition validate :: "number list \<Rightarrow> error + number list" where
  "validate data' =
     (let d = map parseFloat data' in
      if \<not> list_ex Number_isFinite d
      then Inl (Error ''Data included something other than numbers or number strings. Please pass an array of numbers.'')
      else Inr d)"

text \<open>
  Modelled from the spec: \<open>ss.mean\<close> and \<open>ss.standardDeviation\<close> belong to the external
  statistics library (simple-statistics), which is not part of the sources. They are the
  arithmetic mean and the population standard deviation of the sample.
\<close>

definition ss_mean :: "number list \<Rightarrow> number" where
  "ss_mean xs = sum_list xs / real (length xs)"

definition ss_variance :: "number list \<Rightarrow> number" where
  "ss_variance xs = sum_list (map (\<lambda>x. (x - ss_mean xs)\<^sup>2) xs) / real (length xs)"

definition ss_standardDeviation :: "number list \<Rightarrow> number" where
  "ss_standardDeviation xs = sqrt (ss_variance xs)"

section \<open>The class Zone\<close>

text \<open>One entry of \<open>this.zones\<close>: the object \<open>{ name, max, min }\<close>.\<close>

record zone =
  z_name :: string
  z_max :: number
  z_min :: number

text \<open>
  The fields of a \<open>Zone\<close> instance that the pattern rules read (\<open>this.median\<close>, which no
  rule reads, is left out).
\<close>

record Zone =
  Zone_data :: "number list"
  Zone_mean :: number
  Zone_std :: number
  Zone_zones :: "zone list"
  Zone_dataZones :: "string list"

text \<open>
  The bounds of a zone, \<open>this.mean + ( this.std * factor )\<close> and
  \<open>this.mean - ( this.std * factor )\<close>: a product and a sum (a difference), each rounded.
\<close>

definition zone_max :: "(number \<Rightarrow> number) \<Rightarrow> number \<Rightarrow> number \<Rightarrow> number \<Rightarrow> number" where
  "zone_max rd m s factor = rd (m + rd (s * factor))"

definition zone_min :: "(number \<Rightarrow> number) \<Rightarrow> number \<Rightarrow> number \<Rightarrow> number \<Rightarrow> number" where
  "zone_min rd m s factor = rd (m - rd (s * factor))"

text \<open>
  \<open>[ "C", "B", "A" ].map( ( zone, index ) => ... )\<close> with \<open>factor = index + 1\<close>.
\<close>

definition make_zones :: "(number \<Rightarrow> number) \<Rightarrow> number \<Rightarrow> number \<Rightarrow> zone list" where
  "make_zones rd m s =
     map (\<lambda>(index, zn).
            let factor = real index + 1
            in \<lparr>z_name = zn, z_max = zone_max rd m s factor, z_min = zone_min rd m s factor\<rparr>)
         (enumerate 0 [''C'', ''B'', ''A''])"

text \<open>\<open>which( val )\<close>: the first zone, in the order of \<open>this.zones\<close>, with \<open>min \<le> val < max\<close>.\<close>

fun which :: "zone list \<Rightarrow> number \<Rightarrow> string" where
  "which [] v = ''X''"
| "which (zn # rest) v =
     (if v \<ge> z_min zn \<and> v < z_max zn then z_name zn else which rest v)"

text \<open>The constructor, with the mean and the standard deviation it has computed.\<close>

definition Zone_of :: "(number \<Rightarrow> number) \<Rightarrow> number \<Rightarrow> number \<Rightarrow> number list \<Rightarrow> Zone" where
  "Zone_of rd m s d =
     (let zs = make_zones rd m s
      in \<lparr>Zone_data = d, Zone_mean = m, Zone_std = s, Zone_zones = zs,
          Zone_dataZones = map (which zs) d\<rparr>)"

definition Zone_constructor :: "(number \<Rightarrow> number) \<Rightarrow> number list \<Rightarrow> error + Zone" where
  "Zone_constructor rd data' =
     (case validate data' of
        Inl e \<Rightarrow> Inl e
      | Inr d \<Rightarrow> Inr (Zone_of rd (ss_mean d) (ss_standardDeviation d) d))"

section \<open>The report\<close>

text \<open>
  An element of an array field of the report is a number (the \<open>alpha\<close> field and the sigma
  pairs hold numbers) or an array of numbers (a run of indices).
\<close>

datatype elem = N number | A "number list"

text \<open>
  The objects the report holds: the result of \<open>jarqueBera\<close> (\<open>testStatistic\<close>, \<open>pValue\<close>),
  the \<open>outliers\<close> object (\<open>zscore\<close>, \<open>modifiedZscore\<close>, \<open>iqr\<close>) and the \<open>poisson\<close> table (for a
  sample value, the six formatted probabilities). None of them has a \<open>length\<close> property.
\<close>

datatype jsobject =
    JarqueBera number number
  | Outliers "number list" "number list" "number list"
  | Poisson "(number \<times> string list) list"

datatype field = FNum number | FObj jsobject | FArr "elem list"

text \<open>
  The report is the object \<open>p\<close>: its keys in insertion order (none of them is an array
  index, so \<open>Object.keys\<close> lists them in this order), each with its value.
\<close>

type_synonym report = "(string \<times> field) list"

text \<open>
  What \<open>patterns\<close> obtains from the libraries \<open>simple-statistics\<close>, \<open>jstat\<close> and
  \<open>bignumber.js\<close> (directly, or through \<open>jarqueBera\<close>, \<open>zscore\<close>, \<open>modifiedZscore\<close>, \<open>iqr\<close>
  and \<open>poisson\<close>): these values are parameters of the model, which covers the runs in
  which these calls return (the two library calls that refuse a short sample are part of
  \<open>patterns\<close> below). \<open>c_pValue\<close> and \<open>c_zScoreMin\<close>
  are \<open>ss.zScore( max, mean, std )\<close> and \<open>ss.zScore( min, mean, std )\<close>; \<open>c_poisson\<close> is the
  table the last loop of \<open>patterns\<close> fills.
\<close>

record collaborators =
  c_median :: number
  c_min :: number
  c_max :: number
  c_skewness :: number
  c_kurtosis :: number
  c_jarqueBera :: jsobject
  c_outliers :: jsobject
  c_medianAbsoluteDeviation :: number
  c_mode :: number
  c_sampleCorrelation :: number
  c_pValue :: number
  c_zScoreMin :: number
  c_poisson :: jsobject

text \<open>The object literal that initialises \<open>p\<close>.\<close>

definition initial_report :: "collaborators \<Rightarrow> number \<Rightarrow> number \<Rightarrow> report" where
  "initial_report c m s =
     [(''1sigma'', FArr [N (m - s), N (m + s)]),
      (''2sigma'', FArr [N (m - s * 2), N (m + s * 2)]),
      (''3sigma'', FArr [N (m - s * 3), N (m + s * 3)]),
      (''4sigma'', FArr [N (m - s * 4), N (m + s * 4)]),
      (''5sigma'', FArr [N (m - s * 5), N (m + s * 5)]),
      (''jarqueBera'', FObj (c_jarqueBera c)),
      (''kurtosis'', FNum (c_kurtosis c)),
      (''max'', FNum (c_max c)),
      (''mean'', FNum m),
      (''median'', FNum (c_median c)),
      (''medianAbsoluteDeviation'', FNum (c_medianAbsoluteDeviation c)),
      (''min'', FNum (c_min c)),
      (''mode'', FNum (c_mode c)),
      (''outliers'', FObj (c_outliers c)),
      (''sampleCorrelation'', FNum (c_sampleCorrelation c)),
      (''skewness'', FNum (c_skewness c)),
      (''spread'', FNum (c_max c - c_min c)),
      (''standardDeviation'', FNum s),
      (''pValue'', FNum (c_pValue c)),
      (''zScoreMin'', FNum (c_zScoreMin c)),
      (''poisson'', FObj (c_poisson c)),
      (''alpha'', FArr []),
      (''bravo'', FArr []),
      (''charlie'', FArr []),
      (''delta'', FArr []),
      (''echo'', FArr []),
      (''foxtrot'', FArr []),
      (''golf'', FArr []),
      (''hotel'', FArr [])]"

text \<open>\<open>p[ me ].push( x )\<close> on a field that holds an array.\<close>

fun push :: "report \<Rightarrow> string \<Rightarrow> elem \<Rightarrow> report" where
  "push [] me x = []"
| "push ((k, v) # rest) me x =
     (if k = me
      then (k, (case v of FArr es \<Rightarrow> FArr (es @ [x]) | FNum n \<Rightarrow> FNum n | FObj ob \<Rightarrow> FObj ob)) # rest
      else (k, v) # push rest me x)"

text \<open>
  The listener of the event \<open>points\<close>: \<open>p[ _me ].push( _pts )\<close>. A rule that does not emit
  is \<open>None\<close>.
\<close>

fun emit :: "report \<Rightarrow> string \<Rightarrow> nat list option \<Rightarrow> report" where
  "emit p me None = p"
| "emit p me (Some pts) = push p me (A (map real pts))"

text \<open>The value of the field \<open>k\<close> of a report (\<open>None\<close>: no such key).\<close>

definition field_of :: "report \<Rightarrow> string \<Rightarrow> field option" where
  "field_of p k = map_of p k"

section \<open>The rules of patterns\<close>

text \<open>
  What an indexed read gives. \<open>z[ "zones" ][ j ]\<close> is a zone object, or \<open>undefined\<close> past
  the end of the array; the rules compare it with \<open>===\<close> and \<open>!==\<close> against strings, and a
  zone object is never strictly equal to a string. \<open>_data[ j ]\<close> is a number, or \<open>undefined\<close>
  (\<open>None\<close>) past the end.
\<close>

datatype jsval = Undefined | Str string | ZoneObj zone

definition zones_at :: "Zone \<Rightarrow> nat \<Rightarrow> jsval" where
  "zones_at z j = (if j < length (Zone_zones z) then ZoneObj (Zone_zones z ! j) else Undefined)"

definition data_at :: "number list \<Rightarrow> nat \<Rightarrow> number option" where
  "data_at d j = (if j < length d then Some (d ! j) else None)"

text \<open>Alpha: \<open>if ( z[ "zones" ][ i ] === "X" ) p[ "alpha" ].push( i )\<close>.\<close>

definition alpha :: "Zone \<Rightarrow> nat \<Rightarrow> report \<Rightarrow> report" where
  "alpha z i p = (if zones_at z i = Str ''X'' then push p ''alpha'' (N (real i)) else p)"

text \<open>Bravo: the state of the inner loop is \<open>(pts, _bravo)\<close>.\<close>

definition bravo_step :: "Zone \<Rightarrow> nat \<Rightarrow> nat list \<times> nat \<Rightarrow> nat list \<times> nat" where
  "bravo_step z j st =
     (case st of (pts, n) \<Rightarrow>
        if zones_at z j \<noteq> Undefined
        then (pts @ [j], if zones_at z j = Str ''A'' \<or> zones_at z j = Str ''X'' then n + 1 else n)
        else (pts, n))"

definition bravo :: "Zone \<Rightarrow> nat \<Rightarrow> nat list option" where
  "bravo z i =
     (case fold (bravo_step z) [i ..< i + 3] ([], 0) of (pts, n) \<Rightarrow>
        if n \<ge> 2 \<and> length pts = 3 then Some pts else None)"

text \<open>Charlie: the state is \<open>(pts, _charlie)\<close>.\<close>

definition charlie_step :: "Zone \<Rightarrow> nat \<Rightarrow> nat list \<times> nat \<Rightarrow> nat list \<times> nat" where
  "charlie_step z j st =
     (case st of (pts, n) \<Rightarrow>
        if zones_at z j \<noteq> Undefined
        then (pts @ [j], if zones_at z j \<noteq> Str ''C'' then n + 1 else n)
        else (pts, n))"

definition charlie :: "Zone \<Rightarrow> nat \<Rightarrow> nat list option" where
  "charlie z i =
     (case fold (charlie_step z) [i ..< i + 5] ([], 0) of (pts, n) \<Rightarrow>
        if n \<ge> 4 \<and> length pts = 5 then Some pts else None)"

text \<open>
  Delta: the state is \<open>(pts, _delta, above)\<close>; \<open>above\<close> is \<open>undefined\<close> (\<open>None\<close>) until the
  first point of the window is read.
\<close>

definition delta_step ::
  "number list \<Rightarrow> number \<Rightarrow> nat \<Rightarrow> nat list \<times> nat \<times> bool option \<Rightarrow> nat list \<times> nat \<times> bool option" where
  "delta_step d m j st =
     (case st of (pts, n, above') \<Rightarrow>
        (case data_at d j of
           None \<Rightarrow> (pts, n, above')
         | Some v \<Rightarrow>
             let pts1 = pts @ [j];
                 above1 = (if length pts1 = 1 then Some (v > m) else above');
                 n1 = (if above1 = Some True \<and> v > m then n + 1 else n);
                 n2 = (if above1 = Some False \<and> v < m then n1 + 1 else n1)
             in (pts1, n2, above1)))"

definition delta :: "number list \<Rightarrow> number \<Rightarrow> nat \<Rightarrow> nat list option" where
  "delta d m i =
     (case fold (delta_step d m) [i ..< i + 7] ([], 0, None) of (pts, n, above') \<Rightarrow>
        if n \<ge> 7 then Some pts else None)"

text \<open>
  Echo: the state is \<open>(pts, _echo, prev, dir)\<close>. Each of the four tests of the loop body ends
  with \<open>continue\<close>; a point that passes none of them changes nothing.
\<close>

definition echo_step ::
  "number list \<Rightarrow> nat \<Rightarrow> nat list \<times> nat \<times> number \<times> string \<Rightarrow> nat list \<times> nat \<times> number \<times> string" where
  "echo_step d j st =
     (case st of (pts, n, prev, dir) \<Rightarrow>
        (case data_at d j of
           None \<Rightarrow> (pts, n, prev, dir)
         | Some v \<Rightarrow>
             if length pts = 0 then (pts @ [j], n + 1, v, dir)
             else if length pts = 1 then (pts @ [j], n + 1, v, if v > prev then ''up'' else ''down'')
             else if dir = ''up'' \<and> v > prev then (pts @ [j], n + 1, v, dir)
             else if dir = ''down'' \<and> v < prev then (pts @ [j], n + 1, v, dir)
             else (pts, n, prev, dir)))"

definition echo :: "number list \<Rightarrow> nat \<Rightarrow> nat list option" where
  "echo d i =
     (case fold (echo_step d) [i ..< i + 7] ([], 0, 0, []) of (pts, n, prev, dir) \<Rightarrow>
        if n \<ge> 7 then Some pts else None)"

text \<open>Foxtrot: the state is \<open>(pts, _foxtrot)\<close>.\<close>

definition foxtrot_step :: "Zone \<Rightarrow> nat \<Rightarrow> nat list \<times> nat \<Rightarrow> nat list \<times> nat" where
  "foxtrot_step z j st =
     (case st of (pts, n) \<Rightarrow>
        if zones_at z j \<noteq> Undefined
        then (pts @ [j], if zones_at z j \<noteq> Str ''C'' then n + 1 else n)
        else (pts, n))"

definition foxtrot :: "Zone \<Rightarrow> nat \<Rightarrow> nat list option" where
  "foxtrot z i =
     (case fold (foxtrot_step z) [i ..< i + 8] ([], 0) of (pts, n) \<Rightarrow>
        if n \<ge> 8 then Some pts else None)"

text \<open>Golf: the state is \<open>(pts, golf)\<close>.\<close>

definition golf_step :: "Zone \<Rightarrow> nat \<Rightarrow> nat list \<times> nat \<Rightarrow> nat list \<times> nat" where
  "golf_step z j st =
     (case st of (pts, n) \<Rightarrow>
        if zones_at z j \<noteq> Undefined
        then (pts @ [j], if zones_at z j = Str ''C'' then n + 1 else n)
        else (pts, n))"

definition golf :: "Zone \<Rightarrow> nat \<Rightarrow> nat list option" where
  "golf z i =
     (case fold (golf_step z) [i ..< i + 15] ([], 0) of (pts, n) \<Rightarrow>
        if n \<ge> 15 then Some pts else None)"

text \<open>
  Hotel: the state is \<open>(pts, _hotel, prev, dir)\<close>; the loop runs over the indices still to
  visit, and a \<open>break\<close> returns the state as it is.
\<close>

fun hotel_loop ::
  "number list \<Rightarrow> nat list \<Rightarrow> nat list \<times> nat \<times> number \<times> string \<Rightarrow> nat list \<times> nat \<times> number \<times> string" where
  "hotel_loop d [] st = st"
| "hotel_loop d (j # js) (pts, n, prev, dir) =
     (case data_at d j of
        None \<Rightarrow> hotel_loop d js (pts, n, prev, dir)
      | Some v \<Rightarrow>
          if length pts = 0 then hotel_loop d js (pts @ [j], n + 1, v, dir)
          else if v = prev then (pts, n, prev, dir)
          else if length pts = 1
            then hotel_loop d js (pts @ [j], n + 1, v, if v > prev then ''up'' else ''down'')
          else if v > prev \<and> dir = ''down'' then hotel_loop d js (pts @ [j], n + 1, v, ''up'')
          else if v < prev \<and> dir = ''down'' then (pts, n, prev, dir)
          else if v < prev \<and> dir = ''up'' then hotel_loop d js (pts @ [j], n + 1, v, ''down'')
          else if v > prev \<and> dir = ''up'' then (pts, n, prev, dir)
          else hotel_loop d js (pts @ [j], n + 1, v, dir))"

definition hotel :: "number list \<Rightarrow> nat \<Rightarrow> nat list option" where
  "hotel d i =
     (case hotel_loop d [i ..< i + 14] ([], 0, 0, []) of (pts, n, prev, dir) \<Rightarrow>
        if n \<ge> 14 then Some pts else None)"

text \<open>The body of the outer loop, for the start index \<open>i\<close>: the eight rules in turn.\<close>

definition rules_at :: "Zone \<Rightarrow> number list \<Rightarrow> number \<Rightarrow> nat \<Rightarrow> report \<Rightarrow> report" where
  "rules_at z d m i p =
     (let p1 = alpha z i p;
          p2 = emit p1 ''bravo'' (bravo z i);
          p3 = emit p2 ''charlie'' (charlie z i);
          p4 = emit p3 ''delta'' (delta d m i);
          p5 = emit p4 ''echo'' (echo d i);
          p6 = emit p5 ''foxtrot'' (foxtrot z i);
          p7 = emit p6 ''golf'' (golf z i)
      in emit p7 ''hotel'' (hotel d i))"

text \<open>
  The outer loop: \<open>const zoneVals = z[ "zones" ]; for ( let i = 0; i < zoneVals.length; i++ )\<close>.
\<close>

definition rules_loop :: "Zone \<Rightarrow> number list \<Rightarrow> number \<Rightarrow> report \<Rightarrow> report" where
  "rules_loop z d m p = fold (rules_at z d m) [0 ..< length (Zone_zones z)] p"

section \<open>collapse\<close>

text \<open>
  \<open>c = c.concat( p[ j ][ i ] )\<close> for every element of the field: \<open>concat\<close> appends a number
  as it is and an array element by element.
\<close>

fun concat_elems :: "elem list \<Rightarrow> number list" where
  "concat_elems [] = []"
| "concat_elems (N x # es) = x # concat_elems es"
| "concat_elems (A xs # es) = xs @ concat_elems es"

text \<open>\<open>[ ...new Set( c ) ]\<close>: the elements of \<open>c\<close> in the order of their first occurrence.\<close>

definition js_Set :: "number list \<Rightarrow> number list" where
  "js_Set c = rev (remdups (rev c))"

text \<open>
  The loop \<open>for ( let i = 1; i <= z.length; i++ )\<close>, over the elements \<open>z[ 1 ]\<close>, \<open>z[ 2 ]\<close>, ...
  still to visit, with the state \<open>(seq, str, prev)\<close>. The string \<open>str\<close>, the decimal forms
  of numbers joined by colons, is kept as the list of these numbers: \<open>str += `:${z[i]}`\<close>
  appends one, and \<open>str.split( ":" ).map( parseFloat )\<close> reads the list back (\<open>str\<close> never
  starts with a colon, so the \<open>replace\<close> changes nothing). The last round, \<open>i = z.length\<close>,
  reads \<open>undefined\<close>: it closes the sequence in progress. \<open>if ( z[ i ] )\<close> fails for
  \<open>undefined\<close> and for the number 0.
\<close>

fun collapse_loop ::
  "number list \<Rightarrow> number list list \<Rightarrow> number list \<Rightarrow> number \<Rightarrow> number list list" where
  "collapse_loop [] seq str prev = seq @ [str]"
| "collapse_loop (zi # rest) seq str prev =
     (if zi = prev + 1
      then collapse_loop rest seq (str @ [zi]) zi
      else collapse_loop rest (seq @ [str]) (if zi \<noteq> 0 then [zi] else str) zi)"

text \<open>
  The branch for a non-empty array. \<open>z[ 0 ].toString()\<close> throws a TypeError when \<open>z\<close> is
  empty (an array field whose elements are all empty arrays).
\<close>

definition collapse_array :: "elem list \<Rightarrow> error + elem list" where
  "collapse_array es =
     (let c = concat_elems es;
          z = sort (js_Set c)
      in case z of
           [] \<Rightarrow> Inl TypeError
         | z0 # rest \<Rightarrow> Inr (map A (collapse_loop rest [] [z0] z0)))"

text \<open>
  One key \<open>j\<close> of \<open>p\<close>: a key that starts with an underscore is copied; a value with a
  truthy \<open>length\<close> (a non-empty array) is collapsed; any other value is copied.
\<close>

definition starts_with_underscore :: "string \<Rightarrow> bool" where
  "starts_with_underscore j = (case j of [] \<Rightarrow> False | ch # _ \<Rightarrow> ch = CHR ''_'')"

definition collapse_field :: "string \<Rightarrow> field \<Rightarrow> error + field" where
  "collapse_field j v =
     (if starts_with_underscore j then Inr v
      else case v of
             FArr es \<Rightarrow>
               if es \<noteq> []
               then (case collapse_array es of Inl e \<Rightarrow> Inl e | Inr seq \<Rightarrow> Inr (FArr seq))
               else Inr v
           | FNum n \<Rightarrow> Inr v
           | FObj ob \<Rightarrow> Inr v)"

fun collapse :: "report \<Rightarrow> error + report" where
  "collapse [] = Inr []"
| "collapse ((j, v) # rest) =
     (case collapse_field j v of
        Inl e \<Rightarrow> Inl e
      | Inr v' \<Rightarrow> (case collapse rest of Inl e \<Rightarrow> Inl e | Inr out \<Rightarrow> Inr ((j, v') # out)))"

section \<open>patterns\<close>

text \<open>
  Modelled from the spec: the descriptive statistics come from the external statistics
  library, which is not part of the sources. Its functions \<open>sampleSkewness\<close> and
  \<open>sampleKurtosis\<close>, which \<open>patterns\<close> calls before it builds the \<open>Zone\<close>, throw an error for
  a sample of fewer than three and of fewer than four points.
\<close>

definition ss_sampleSkewness_throws :: "number list \<Rightarrow> bool" where
  "ss_sampleSkewness_throws d = (length d < 3)"

definition ss_sampleKurtosis_throws :: "number list \<Rightarrow> bool" where
  "ss_sampleKurtosis_throws d = (length d < 4)"

text \<open>
  \<open>patterns( data, _collapse )\<close> on an array \<open>data\<close>. The mean and the standard deviation
  are those of the validated sample; \<open>Zone\<close> validates the same sample again and computes
  the same two values.
\<close>

definition patterns ::
  "(number \<Rightarrow> number) \<Rightarrow> collaborators \<Rightarrow> number list \<Rightarrow> bool \<Rightarrow> error + report" where
  "patterns rd c data' collapse' =
     (case validate data' of
        Inl e \<Rightarrow> Inl e
      | Inr d \<Rightarrow>
          if ss_sampleSkewness_throws d
          then Inl (Error ''sampleSkewness requires at least three data points'')
          else if ss_sampleKurtosis_throws d
          then Inl (Error ''sampleKurtosis requires at least four data points'')
          else
            (case Zone_constructor rd d of
               Inl e \<Rightarrow> Inl e
             | Inr z \<Rightarrow>
                 let p = rules_loop z d (ss_mean d) (initial_report c (ss_mean d) (ss_standardDeviation d))
                 in if collapse' then collapse p else Inr p))"

text \<open>The numbers held by an array field, and the names of the eight rule fields.\<close>

definition indices_of :: "field option \<Rightarrow> number set" where
  "indices_of f = (case f of Some (FArr es) \<Rightarrow> set (concat_elems es) | _ \<Rightarrow> {})"

definition rule_names :: "string list" where
  "rule_names = [''alpha'', ''bravo'', ''charlie'', ''delta'', ''echo'', ''foxtrot'', ''golf'', ''hotel'']"

section \<open>Predicates on runs and reports\<close>

text \<open>
  A range of consecutive integers: each element is its predecessor plus one. A list of
  ranges is maximal when no range can be joined to the next one.
\<close>

fun consecutive :: "number list \<Rightarrow> bool" where
  "consecutive (x # y # r) = (y = x + 1 \<and> consecutive (y # r))"
| "consecutive r = True"

fun maximal_ranges :: "number list list \<Rightarrow> bool" where
  "maximal_ranges (a # b # r) = (last a + 1 \<noteq> hd b \<and> maximal_ranges (b # r))"
| "maximal_ranges r = True"

text \<open>
  What the rules push: an index, or a non-empty run of indices. \<open>run_ok\<close> says that an
  array element is not the empty array, \<open>nonneg_elem\<close> that its numbers are not negative.
\<close>

fun run_ok :: "elem \<Rightarrow> bool" where
  "run_ok (N x) = True"
| "run_ok (A xs) = (xs \<noteq> [])"

fun nonneg_elem :: "elem \<Rightarrow> bool" where
  "nonneg_elem (N x) = (0 \<le> x)"
| "nonneg_elem (A xs) = list_all (\<lambda>x. 0 \<le> x) xs"

definition field_inv :: "string \<times> field \<Rightarrow> bool" where
  "field_inv kv =
     (case snd kv of
        FArr es \<Rightarrow> list_all run_ok es \<and> (fst kv \<notin> set rule_names \<or> list_all nonneg_elem es)
      | FNum n \<Rightarrow> True
      | FObj ob \<Rightarrow> True)"

definition report_inv :: "report \<Rightarrow> bool" where
  "report_inv p = list_all field_inv p"

section \<open>The sample of the documentation\<close>

text \<open>
  The 60-point series of the README, for which the README prints the report of
  \<open>patterns\<close> with and without collapsing.
\<close>

definition readme_series :: "number list" where
  "readme_series =
     [42, 41, 45, 49, 44, 39, 47, 42, 69, 60, 59, 40, 39, 40, 18, 41, 48, 50, 48, 49,
      44, 49, 66, 62, 66, 43, 47, 43, 42, 45, 59, 61, 68, 45, 41, 42, 42, 37, 56, 61,
      56, 44, 39, 63, 64, 62, 87, 38, 42, 36, 34, 75, 72, 60, 37, 44, 43, 44, 48, 45]"

section \<open>Basic facts about validate, Zone and the rule loop\<close>

lemma validate_eq: "validate d = (if d = [] then Inl (Error ''Data included something other than numbers or number strings. Please pass an array of numbers.'') else Inr d)"
proof -
  have m: "map parseFloat d = d" by (induction d) (simp_all add: parseFloat_def)
  have e: "list_ex Number_isFinite d = (d \<noteq> [])" by (cases d) (simp_all add: Number_isFinite_def)
  show ?thesis by (simp add: validate_def m e)
qed

lemma make_zones_eq:
  "make_zones rd m s =
     [\<lparr>z_name = ''C'', z_max = zone_max rd m s 1, z_min = zone_min rd m s 1\<rparr>,
      \<lparr>z_name = ''B'', z_max = zone_max rd m s 2, z_min = zone_min rd m s 2\<rparr>,
      \<lparr>z_name = ''A'', z_max = zone_max rd m s 3, z_min = zone_min rd m s 3\<rparr>]"
  by (simp add: make_zones_def)

lemma Zone_constructor_eq:
  "Zone_constructor rd d = (if d = [] then Inl (Error ''Data included something other than numbers or number strings. Please pass an array of numbers.'') else Inr (Zone_of rd (ss_mean d) (ss_standardDeviation d) d))"
  by (simp add: Zone_constructor_def validate_eq)

lemma which_make_zones:
  "which (make_zones rd m s) v =
     (if zone_min rd m s 1 \<le> v \<and> v < zone_max rd m s 1 then ''C''
      else if zone_min rd m s 2 \<le> v \<and> v < zone_max rd m s 2 then ''B''
      else if zone_min rd m s 3 \<le> v \<and> v < zone_max rd m s 3 then ''A''
      else ''X'')"
  by (simp add: make_zones_eq)

lemma ss_standardDeviation_nonneg: "0 \<le> ss_standardDeviation d"
  by (auto simp: ss_standardDeviation_def ss_variance_def intro!: divide_nonneg_nonneg sum_list_nonneg)

lemma mono_exact: "mono exact"
  by (simp add: mono_def exact_def)

lemma exact_bounds:
  "zone_max exact m s k = m + s * k" "zone_min exact m s k = m - s * k"
  by (simp_all add: zone_max_def zone_min_def exact_def)

lemma zone_bounds_nested:
  assumes "mono rd" and "rd 0 = 0" and "0 \<le> s"
  shows "zone_min rd m s 3 \<le> zone_min rd m s 2" and "zone_min rd m s 2 \<le> zone_min rd m s 1"
    and "zone_min rd m s 1 \<le> zone_max rd m s 1"
    and "zone_max rd m s 1 \<le> zone_max rd m s 2" and "zone_max rd m s 2 \<le> zone_max rd m s 3"
proof -
  have a: "rd (s * 1) \<le> rd (s * 2)"
    by (rule monoD [OF assms(1)]) (use assms(3) in simp)
  have b: "rd (s * 2) \<le> rd (s * 3)"
    by (rule monoD [OF assms(1)]) (use assms(3) in simp)
  have "rd 0 \<le> rd (s * 1)"
    by (rule monoD [OF assms(1)]) (use assms(3) in simp)
  then have c: "0 \<le> rd (s * 1)" using assms(2) by simp
  show "zone_min rd m s 3 \<le> zone_min rd m s 2"
    unfolding zone_min_def by (rule monoD [OF assms(1)]) (use b in simp)
  show "zone_min rd m s 2 \<le> zone_min rd m s 1"
    unfolding zone_min_def by (rule monoD [OF assms(1)]) (use a in simp)
  show "zone_min rd m s 1 \<le> zone_max rd m s 1"
    unfolding zone_min_def zone_max_def by (rule monoD [OF assms(1)]) (use c in simp)
  show "zone_max rd m s 1 \<le> zone_max rd m s 2"
    unfolding zone_max_def by (rule monoD [OF assms(1)]) (use a in simp)
  show "zone_max rd m s 2 \<le> zone_max rd m s 3"
    unfolding zone_max_def by (rule monoD [OF assms(1)]) (use b in simp)
qed

lemma zone_bounds_zero:
  assumes "rd 0 = 0"
  shows "zone_min rd m 0 k = rd m" and "zone_max rd m 0 k = rd m"
  using assms by (simp_all add: zone_min_def zone_max_def)

lemma which_upper_edge:
  assumes "mono rd" and "rd 0 = 0" and "0 \<le> s"
  shows "which (make_zones rd m s) (zone_max rd m s 3) = ''X''"
  using zone_bounds_nested [OF assms, of m] by (simp add: which_make_zones)

lemma which_lower_edge:
  assumes "mono rd" and "rd 0 = 0" and "0 \<le> s" and "zone_min rd m s 3 < zone_min rd m s 2"
  shows "which (make_zones rd m s) (zone_min rd m s 3) = ''A''"
  using zone_bounds_nested [OF assms(1-3), of m] assms(4) by (simp add: which_make_zones)

lemma which_degenerate:
  assumes "rd 0 = 0"
  shows "which (make_zones rd m 0) v = ''X''"
  using zone_bounds_zero [of rd m] assms by (simp add: which_make_zones)

lemma which_label: "which (make_zones rd m s) v \<in> {''A'', ''B'', ''C'', ''X''}"
  by (simp add: which_make_zones)

lemma length_make_zones: "length (make_zones rd m s) = 3"
  by (simp add: make_zones_eq)

lemma zones_at_not_Str: "zones_at z j \<noteq> Str s"
  by (simp add: zones_at_def)

lemma upt3: "[i ..< i + 3] = [i, i + 1, i + 2]"
  by (simp add: upt_rec)

lemma bravo_None: "bravo z i = None"
  by (simp add: bravo_def upt3 bravo_step_def zones_at_not_Str)

lemma alpha_id: "alpha z i p = p"
  by (simp add: alpha_def zones_at_not_Str)

lemma golf_count: "snd (fold (golf_step z) js (pts, n)) = n"
  by (induction js arbitrary: pts n) (simp_all add: golf_step_def zones_at_not_Str)

lemma golf_None: "golf z i = None"
proof -
  obtain pts n where f: "fold (golf_step z) [i ..< i + 15] ([], 0) = (pts, n)"
    by (cases "fold (golf_step z) [i ..< i + 15] ([], 0)")
  have "n = 0" using golf_count [of z "[i ..< i + 15]" "[]" 0] f by simp
  then show ?thesis by (simp add: golf_def f)
qed

lemma charlie_count:
  "snd (fold (charlie_step z) js (pts, n)) \<le> n + length (filter (\<lambda>j. j < length (Zone_zones z)) js)"
proof (induction js arbitrary: pts n)
  case Nil
  show ?case by simp
next
  case (Cons a js)
  show ?case
    using Cons.IH [of "pts @ [a]" "Suc n"] Cons.IH [of pts n]
    by (auto simp: charlie_step_def zones_at_def)
qed

lemma foxtrot_count:
  "snd (fold (foxtrot_step z) js (pts, n)) \<le> n + length (filter (\<lambda>j. j < length (Zone_zones z)) js)"
proof (induction js arbitrary: pts n)
  case Nil
  show ?case by simp
next
  case (Cons a js)
  show ?case
    using Cons.IH [of "pts @ [a]" "Suc n"] Cons.IH [of pts n]
    by (auto simp: foxtrot_step_def zones_at_def)
qed

lemma filter_less_upt: "length (filter (\<lambda>j. j < k) [i ..< n]) \<le> k"
proof -
  have "filter (\<lambda>j. j < k) [i ..< n] = [i ..< min k n]"
    by (induction n) auto
  then show ?thesis by simp
qed

lemma charlie_None: "length (Zone_zones z) = 3 \<Longrightarrow> charlie z i = None"
proof -
  assume l: "length (Zone_zones z) = 3"
  obtain pts n where f: "fold (charlie_step z) [i ..< i + 5] ([], 0) = (pts, n)"
    by (cases "fold (charlie_step z) [i ..< i + 5] ([], 0)")
  have "n \<le> 3"
    using charlie_count [of z "[i ..< i + 5]" "[]" 0] filter_less_upt [of 3 i "i + 5"] f l by simp
  then show ?thesis by (simp add: charlie_def f)
qed

lemma foxtrot_None: "length (Zone_zones z) = 3 \<Longrightarrow> foxtrot z i = None"
proof -
  assume l: "length (Zone_zones z) = 3"
  obtain pts n where f: "fold (foxtrot_step z) [i ..< i + 8] ([], 0) = (pts, n)"
    by (cases "fold (foxtrot_step z) [i ..< i + 8] ([], 0)")
  have "n \<le> 3"
    using foxtrot_count [of z "[i ..< i + 8]" "[]" 0] filter_less_upt [of 3 i "i + 8"] f l by simp
  then show ?thesis by (simp add: foxtrot_def f)
qed


lemma field_of_push_other: "k \<noteq> me \<Longrightarrow> field_of (push p me x) k = field_of p k"
  by (induction p) (auto simp: field_of_def)

lemma field_of_emit_other: "k \<noteq> me \<Longrightarrow> field_of (emit p me r) k = field_of p k"
  by (cases r) (simp_all add: field_of_push_other)

lemma field_of_push_same:
  "field_of p me = Some (FArr es) \<Longrightarrow> field_of (push p me x) me = Some (FArr (es @ [x]))"
  by (induction p) (auto simp: field_of_def)

lemma rules_at_eq:
  "length (Zone_zones z) = 3 \<Longrightarrow>
   rules_at z d m i p =
     emit (emit (emit p ''delta'' (delta d m i)) ''echo'' (echo d i)) ''hotel'' (hotel d i)"
  by (simp add: rules_at_def alpha_id bravo_None charlie_None foxtrot_None golf_None)

lemma upt_0_3: "[0 ..< 3] = [0, 1, 2]"
  by (simp add: upt_rec)

lemma rules_loop_eq:
  "length (Zone_zones z) = 3 \<Longrightarrow>
   rules_loop z d m p = rules_at z d m 2 (rules_at z d m 1 (rules_at z d m 0 p))"
  by (simp add: rules_loop_def upt_0_3)

lemma rules_at_other:
  "length (Zone_zones z) = 3 \<Longrightarrow> k \<noteq> ''delta'' \<Longrightarrow> k \<noteq> ''echo'' \<Longrightarrow> k \<noteq> ''hotel'' \<Longrightarrow>
   field_of (rules_at z d m i p) k = field_of p k"
  by (simp add: rules_at_eq field_of_emit_other)

lemma rules_loop_other:
  "length (Zone_zones z) = 3 \<Longrightarrow> k \<noteq> ''delta'' \<Longrightarrow> k \<noteq> ''echo'' \<Longrightarrow> k \<noteq> ''hotel'' \<Longrightarrow>
   field_of (rules_loop z d m p) k = field_of p k"
  by (simp add: rules_loop_eq rules_at_other)

lemma Zone_of_sel:
  "Zone_zones (Zone_of rd m s d) = make_zones rd m s"
  "Zone_dataZones (Zone_of rd m s d) = map (which (make_zones rd m s)) d"
  "Zone_mean (Zone_of rd m s d) = m"
  "Zone_std (Zone_of rd m s d) = s"
  "Zone_data (Zone_of rd m s d) = d"
  by (simp_all add: Zone_of_def Let_def)

lemma Zone_of_zones: "length (Zone_zones (Zone_of rd m s d)) = 3"
  by (simp add: Zone_of_sel length_make_zones)

lemma patterns_eq:
  "4 \<le> length d \<Longrightarrow>
   patterns rd c d col =
     (let p = rules_loop (Zone_of rd (ss_mean d) (ss_standardDeviation d) d) d (ss_mean d)
                (initial_report c (ss_mean d) (ss_standardDeviation d))
      in if col then collapse p else Inr p)"
proof -
  assume l: "4 \<le> length d"
  then have "d \<noteq> []" by auto
  then show ?thesis
    using l by (simp add: patterns_def validate_eq Zone_constructor_eq
        ss_sampleSkewness_throws_def ss_sampleKurtosis_throws_def)
qed

lemma patterns_short: "length d < 4 \<Longrightarrow> \<exists>e. patterns rd c d col = Inl e"
  by (simp add: patterns_def validate_eq ss_sampleSkewness_throws_def
      ss_sampleKurtosis_throws_def)

lemma patterns_Inr_length: "patterns rd c d col = Inr r \<Longrightarrow> 4 \<le> length d"
  using patterns_short [of d rd c col] by (cases "length d < 4") auto

lemma sqrt_9: "sqrt 9 = 3"
  by (rule real_sqrt_unique) simp_all

lemma Zone_constructor_total:
  "d \<noteq> [] \<Longrightarrow> \<exists>m s. 0 \<le> s \<and> Zone_constructor rd d = Inr (Zone_of rd m s d)"
  using ss_standardDeviation_nonneg [of d] by (auto simp: Zone_constructor_eq)

section \<open>Zone classification\<close>

text \<open>
  C5 (amended). For every valid sample, whatever mean and standard deviation the
  statistics library returns for it, zone classification gives each value \<open>v\<close> the label of
  the first zone, in the order C, B, A, whose computed half-open interval contains \<open>v\<close> (the
  test is \<open>min \<le> v < max\<close>, the bounds being \<open>mean - \<sigma> * k\<close> and \<open>mean + \<sigma> * k\<close> for
  \<open>k = 1, 2, 3\<close> as the double arithmetic computes them), and the label X when no zone
  contains it. A value equal to the computed upper bound of zone A is labelled X. A value
  equal to the computed lower bound of zone A is labelled A when that bound lies strictly
  below the computed lower bound of zone B; when \<open>\<sigma> = 0\<close> the three intervals are empty and it
  is labelled X.
\<close>

theorem zone_classification_first_zone:
  "Zone_zones (Zone_of rd m s d) =
     [\<lparr>z_name = ''C'', z_max = zone_max rd m s 1, z_min = zone_min rd m s 1\<rparr>,
      \<lparr>z_name = ''B'', z_max = zone_max rd m s 2, z_min = zone_min rd m s 2\<rparr>,
      \<lparr>z_name = ''A'', z_max = zone_max rd m s 3, z_min = zone_min rd m s 3\<rparr>] \<and>
   Zone_dataZones (Zone_of rd m s d) = map (which (Zone_zones (Zone_of rd m s d))) d \<and>
   (\<forall>v. which (Zone_zones (Zone_of rd m s d)) v =
      (if zone_min rd m s 1 \<le> v \<and> v < zone_max rd m s 1 then ''C''
       else if zone_min rd m s 2 \<le> v \<and> v < zone_max rd m s 2 then ''B''
       else if zone_min rd m s 3 \<le> v \<and> v < zone_max rd m s 3 then ''A''
       else ''X'')) \<and>
   (mono rd \<and> rd 0 = 0 \<and> 0 \<le> s \<longrightarrow>
      which (Zone_zones (Zone_of rd m s d)) (zone_max rd m s 3) = ''X'' \<and>
      (zone_min rd m s 3 < zone_min rd m s 2 \<longrightarrow>
         which (Zone_zones (Zone_of rd m s d)) (zone_min rd m s 3) = ''A'') \<and>
      (s = 0 \<longrightarrow> which (Zone_zones (Zone_of rd m s d)) (zone_min rd m s 3) = ''X'')) \<and>
   (d \<noteq> [] \<longrightarrow> (\<exists>m' s'. 0 \<le> s' \<and> Zone_constructor rd d = Inr (Zone_of rd m' s' d)))"
proof -
  have zs: "Zone_zones (Zone_of rd m s d) =
     [\<lparr>z_name = ''C'', z_max = zone_max rd m s 1, z_min = zone_min rd m s 1\<rparr>,
      \<lparr>z_name = ''B'', z_max = zone_max rd m s 2, z_min = zone_min rd m s 2\<rparr>,
      \<lparr>z_name = ''A'', z_max = zone_max rd m s 3, z_min = zone_min rd m s 3\<rparr>]"
    by (simp add: Zone_of_sel make_zones_eq)
  have dz: "Zone_dataZones (Zone_of rd m s d) = map (which (Zone_zones (Zone_of rd m s d))) d"
    by (simp add: Zone_of_sel)
  have w: "\<forall>v. which (Zone_zones (Zone_of rd m s d)) v =
      (if zone_min rd m s 1 \<le> v \<and> v < zone_max rd m s 1 then ''C''
       else if zone_min rd m s 2 \<le> v \<and> v < zone_max rd m s 2 then ''B''
       else if zone_min rd m s 3 \<le> v \<and> v < zone_max rd m s 3 then ''A''
       else ''X'')"
    by (simp add: Zone_of_sel which_make_zones)
  have e: "which (Zone_zones (Zone_of rd m s d)) (zone_max rd m s 3) = ''X'' \<and>
      (zone_min rd m s 3 < zone_min rd m s 2 \<longrightarrow>
         which (Zone_zones (Zone_of rd m s d)) (zone_min rd m s 3) = ''A'') \<and>
      (s = 0 \<longrightarrow> which (Zone_zones (Zone_of rd m s d)) (zone_min rd m s 3) = ''X'')"
    if h: "mono rd" "rd 0 = 0" "0 \<le> s"
  proof -
    have up: "which (make_zones rd m s) (zone_max rd m s 3) = ''X''"
      by (rule which_upper_edge [OF h])
    have lo: "zone_min rd m s 3 < zone_min rd m s 2 \<longrightarrow>
        which (make_zones rd m s) (zone_min rd m s 3) = ''A''"
      using which_lower_edge [OF h] by blast
    have dg: "s = 0 \<longrightarrow> which (make_zones rd m s) (zone_min rd m s 3) = ''X''"
      using which_degenerate [of rd m] h(2) by simp
    from up lo dg show ?thesis by (simp add: Zone_of_sel)
  qed
  have c: "d \<noteq> [] \<longrightarrow> (\<exists>m' s'. 0 \<le> s' \<and> Zone_constructor rd d = Inr (Zone_of rd m' s' d))"
    using Zone_constructor_total by blast
  from zs dz w e c show ?thesis by blast
qed

text \<open>
  The sample of nine zeros and one \<open>-10\<close> has mean \<open>-1\<close> and standard deviation \<open>3\<close>, and its
  zone bounds are integers: its last point lies exactly on the lower bound \<open>-10\<close> of zone A
  and is labelled A, and the upper bound \<open>8\<close> of zone A is labelled X.
\<close>

theorem zone_classification_first_zone_witness:
  "mono exact \<and> exact 0 = 0 \<and> (0 :: real) \<le> 3 \<and>
   [0, 0, 0, 0, 0, 0, 0, 0, 0, -10] \<noteq> ([] :: real list) \<and>
   zone_min exact (-1) 3 3 = -10 \<and> zone_min exact (-1) 3 2 = -7 \<and> zone_max exact (-1) 3 3 = 8 \<and>
   Zone_constructor exact [0, 0, 0, 0, 0, 0, 0, 0, 0, -10] =
     Inr (Zone_of exact (-1) 3 [0, 0, 0, 0, 0, 0, 0, 0, 0, -10]) \<and>
   Zone_dataZones (Zone_of exact (-1) 3 [0, 0, 0, 0, 0, 0, 0, 0, 0, -10]) =
     [''C'', ''C'', ''C'', ''C'', ''C'', ''C'', ''C'', ''C'', ''C'', ''A''] \<and>
   which (Zone_zones (Zone_of exact (-1) 3 [0, 0, 0, 0, 0, 0, 0, 0, 0, -10])) 8 = ''X'' \<and>
   which (Zone_zones (Zone_of exact (-1) 3 [0, 0, 0, 0, 0, 0, 0, 0, 0, -10])) (-10) = ''A''"
proof -
  let ?d = "[0, 0, 0, 0, 0, 0, 0, 0, 0, -10] :: real list"
  let ?z = "Zone_of exact (-1) 3 ?d"
  have m: "ss_mean ?d = -1" by (simp add: ss_mean_def)
  have s: "ss_standardDeviation ?d = 3"
    by (simp add: ss_standardDeviation_def ss_variance_def ss_mean_def sqrt_9)
  have h: "mono exact \<and> exact 0 = 0 \<and> (0 :: real) \<le> 3"
    by (simp add: mono_exact exact_def)
  have b: "zone_min exact (-1) 3 3 = -10" "zone_min exact (-1) 3 2 = -7"
    "zone_max exact (-1) 3 3 = 8"
    by (simp_all add: exact_bounds)
  have lt: "zone_min exact (-1) 3 3 < zone_min exact (-1) 3 2" by (simp add: b)
  have c: "Zone_constructor exact ?d = Inr ?z"
    by (simp add: Zone_constructor_eq m s)
  have dz: "Zone_dataZones ?z =
     [''C'', ''C'', ''C'', ''C'', ''C'', ''C'', ''C'', ''C'', ''C'', ''A'']"
    by (simp add: Zone_of_sel which_make_zones exact_bounds)
  note t = zone_classification_first_zone [of exact "-1" 3 ?d]
  from t h have up: "which (Zone_zones ?z) (zone_max exact (-1) 3 3) = ''X''"
    by blast
  from t h lt have lo: "which (Zone_zones ?z) (zone_min exact (-1) 3 3) = ''A''"
    by blast
  from up lo h b c dz show ?thesis by simp
qed

text \<open>
  The constant sample \<open>[7, 7, 7]\<close> has standard deviation \<open>0\<close>: the value \<open>7\<close> is equal to
  \<open>mean - 3 * \<sigma>\<close> and its label is X, not A.
\<close>

theorem zone_lower_edge_counterexample:
  "Zone_constructor exact [7, 7, 7] = Inr (Zone_of exact 7 0 [7, 7, 7]) \<and>
   Zone_mean (Zone_of exact 7 0 [7, 7, 7]) - 3 * Zone_std (Zone_of exact 7 0 [7, 7, 7]) = 7 \<and>
   zone_min exact 7 0 3 = 7 \<and>
   which (Zone_zones (Zone_of exact 7 0 [7, 7, 7])) 7 = ''X'' \<and>
   which (Zone_zones (Zone_of exact 7 0 [7, 7, 7])) 7 \<noteq> ''A'' \<and>
   Zone_dataZones (Zone_of exact 7 0 [7, 7, 7]) = [''X'', ''X'', ''X'']"
proof -
  have m: "ss_mean [7, 7, 7] = 7" by (simp add: ss_mean_def)
  have s: "ss_standardDeviation [7, 7, 7] = 0"
    by (simp add: ss_standardDeviation_def ss_variance_def ss_mean_def)
  show ?thesis
    by (simp add: Zone_constructor_eq m s Zone_of_sel which_make_zones exact_bounds)
qed






text \<open>
  C10. If the standard deviation that the statistics library returns for the sample is
  zero, every zone is the empty interval \<open>[mean, mean)\<close>: the constructor builds the three
  zones C, B, A, each with both bounds equal to the mean (the mean is a double, which the
  rounding leaves unchanged), and labels every point X; the constructor returns (no error
  is thrown), and every label is the string X.
\<close>

theorem zero_deviation_all_X:
  assumes "rd 0 = 0" and "rd m = m"
  shows "Zone_std (Zone_of rd m 0 d) = 0 \<and>
         Zone_zones (Zone_of rd m 0 d) =
           [\<lparr>z_name = ''C'', z_max = m, z_min = m\<rparr>,
            \<lparr>z_name = ''B'', z_max = m, z_min = m\<rparr>,
            \<lparr>z_name = ''A'', z_max = m, z_min = m\<rparr>] \<and>
         (\<forall>v. which (Zone_zones (Zone_of rd m 0 d)) v = ''X'') \<and>
         Zone_dataZones (Zone_of rd m 0 d) = replicate (length d) ''X'' \<and>
         (d \<noteq> [] \<longrightarrow> (\<exists>m' s'. 0 \<le> s' \<and> Zone_constructor rd d = Inr (Zone_of rd m' s' d)))"
proof -
  let ?z = "Zone_of rd m 0 d"
  have b: "Zone_zones ?z =
           [\<lparr>z_name = ''C'', z_max = m, z_min = m\<rparr>,
            \<lparr>z_name = ''B'', z_max = m, z_min = m\<rparr>,
            \<lparr>z_name = ''A'', z_max = m, z_min = m\<rparr>]"
    using zone_bounds_zero [of rd m] assms by (simp add: Zone_of_sel make_zones_eq)
  have w: "\<forall>v. which (Zone_zones ?z) v = ''X''"
    using which_degenerate [of rd m] assms(1) by (simp add: Zone_of_sel)
  have "map (which (make_zones rd m 0)) d = replicate (length d) ''X''"
    using which_degenerate [of rd m] assms(1) by (induction d) simp_all
  then have l: "Zone_dataZones ?z = replicate (length d) ''X''"
    by (simp add: Zone_of_sel)
  have s: "Zone_std ?z = 0" by (simp add: Zone_of_sel)
  have c: "d \<noteq> [] \<longrightarrow> (\<exists>m' s'. 0 \<le> s' \<and> Zone_constructor rd d = Inr (Zone_of rd m' s' d))"
    using Zone_constructor_total by blast
  from s b w l c show ?thesis by blast
qed

text \<open>
  The constant sample \<open>[7, 7, 7]\<close>: the library returns the mean 7 and the standard
  deviation 0, and the constructor returns the zone with three labels X.
\<close>

theorem zero_deviation_all_X_witness:
  "exact 0 = 0 \<and> exact 7 = 7 \<and>
   Zone_constructor exact [7, 7, 7] = Inr (Zone_of exact 7 0 [7, 7, 7]) \<and>
   Zone_zones (Zone_of exact 7 0 [7, 7, 7]) =
     [\<lparr>z_name = ''C'', z_max = 7, z_min = 7\<rparr>,
      \<lparr>z_name = ''B'', z_max = 7, z_min = 7\<rparr>,
      \<lparr>z_name = ''A'', z_max = 7, z_min = 7\<rparr>] \<and>
   (\<forall>v. which (Zone_zones (Zone_of exact 7 0 [7, 7, 7])) v = ''X'') \<and>
   Zone_dataZones (Zone_of exact 7 0 [7, 7, 7]) = [''X'', ''X'', ''X'']"
proof -
  have h: "exact 0 = 0" "exact 7 = 7" by (simp_all add: exact_def)
  have m: "ss_mean [7, 7, 7] = 7" by (simp add: ss_mean_def)
  have s: "ss_standardDeviation [7, 7, 7] = 0"
    by (simp add: ss_standardDeviation_def ss_variance_def ss_mean_def)
  have c: "Zone_constructor exact [7, 7, 7] = Inr (Zone_of exact 7 0 [7, 7, 7])"
    by (simp add: Zone_constructor_eq m s)
  from zero_deviation_all_X [OF h, of "[7, 7, 7]"] h c show ?thesis
    by (simp add: numeral_3_eq_3)
qed

section \<open>Emitted runs and the totality of collapse\<close>

lemma delta_step_count:
  "delta_step d m j (pts, n, a) = (pts1, n1, a1) \<Longrightarrow> n \<le> length pts \<Longrightarrow> n1 \<le> length pts1"
  by (auto simp: delta_step_def Let_def split: option.splits if_splits)

lemma delta_fold_count:
  "fold (delta_step d m) js (pts, n, a) = (pts1, n1, a1) \<Longrightarrow> n \<le> length pts \<Longrightarrow> n1 \<le> length pts1"
proof (induction js arbitrary: pts n a)
  case Nil
  then show ?case by simp
next
  case (Cons j js)
  obtain p2 n2 a2 where st: "delta_step d m j (pts, n, a) = (p2, n2, a2)"
    by (cases "delta_step d m j (pts, n, a)")
  have "n2 \<le> length p2" using delta_step_count [OF st Cons.prems(2)] .
  moreover have "fold (delta_step d m) js (p2, n2, a2) = (pts1, n1, a1)"
    using Cons.prems(1) st by simp
  ultimately show ?case using Cons.IH by blast
qed

lemma delta_Some: "delta d m i = Some pts \<Longrightarrow> 7 \<le> length pts"
proof -
  assume a: "delta d m i = Some pts"
  obtain p1 n1 a1 where f: "fold (delta_step d m) [i ..< i + 7] ([], 0, None) = (p1, n1, a1)"
    by (cases "fold (delta_step d m) [i ..< i + 7] ([], 0, None)")
  have "n1 \<le> length p1" using delta_fold_count [OF f] by simp
  then show ?thesis using a by (simp add: delta_def f split: if_splits)
qed

lemma echo_step_count:
  "echo_step d j (pts, n, pv, dr) = (pts1, n1, pv1, dr1) \<Longrightarrow> n \<le> length pts \<Longrightarrow> n1 \<le> length pts1"
  by (auto simp: echo_step_def split: option.splits if_splits)

lemma echo_fold_count:
  "fold (echo_step d) js (pts, n, pv, dr) = (pts1, n1, pv1, dr1) \<Longrightarrow> n \<le> length pts \<Longrightarrow> n1 \<le> length pts1"
proof (induction js arbitrary: pts n pv dr)
  case Nil
  then show ?case by simp
next
  case (Cons j js)
  obtain p2 n2 v2 d2 where st: "echo_step d j (pts, n, pv, dr) = (p2, n2, v2, d2)"
    by (cases "echo_step d j (pts, n, pv, dr)")
  have "n2 \<le> length p2" using echo_step_count [OF st Cons.prems(2)] .
  moreover have "fold (echo_step d) js (p2, n2, v2, d2) = (pts1, n1, pv1, dr1)"
    using Cons.prems(1) st by simp
  ultimately show ?case using Cons.IH by blast
qed

lemma echo_Some: "echo d i = Some pts \<Longrightarrow> 7 \<le> length pts"
proof -
  assume a: "echo d i = Some pts"
  obtain p1 n1 v1 d1 where f: "fold (echo_step d) [i ..< i + 7] ([], 0, 0, []) = (p1, n1, v1, d1)"
    by (cases "fold (echo_step d) [i ..< i + 7] ([], 0, 0, [])")
  have "n1 \<le> length p1" using echo_fold_count [OF f] by simp
  then show ?thesis using a by (simp add: echo_def f split: if_splits)
qed

lemma hotel_loop_count:
  "hotel_loop d js (pts, n, pv, dr) = (pts1, n1, pv1, dr1) \<Longrightarrow> n \<le> length pts \<Longrightarrow> n1 \<le> length pts1"
proof (induction js arbitrary: pts n pv dr)
  case Nil
  then show ?case by simp
next
  case (Cons j js)
  have ih: "\<And>v dr'. hotel_loop d js (pts @ [j], n + 1, v, dr') = (pts1, n1, pv1, dr1) \<Longrightarrow> n1 \<le> length pts1"
    using Cons.IH [of "pts @ [j]" "n + 1"] Cons.prems(2) by simp
  show ?case
  proof (cases "data_at d j")
    case None
    then show ?thesis using Cons.prems Cons.IH [of pts n pv dr] by simp
  next
    case (Some v)
    from Cons.prems(1) have
      "(pts, n, pv, dr) = (pts1, n1, pv1, dr1) \<or>
       (\<exists>dr'. hotel_loop d js (pts @ [j], n + 1, v, dr') = (pts1, n1, pv1, dr1))"
      by (simp add: Some split: if_splits) blast+
    then show ?thesis using ih Cons.prems(2) by auto
  qed
qed

lemma hotel_Some: "hotel d i = Some pts \<Longrightarrow> 14 \<le> length pts"
proof -
  assume a: "hotel d i = Some pts"
  obtain p1 n1 v1 d1 where f: "hotel_loop d [i ..< i + 14] ([], 0, 0, []) = (p1, n1, v1, d1)"
    by (cases "hotel_loop d [i ..< i + 14] ([], 0, 0, [])")
  have "n1 \<le> length p1" using hotel_loop_count [OF f] by simp
  then show ?thesis using a by (simp add: hotel_def f split: if_splits)
qed

lemma report_inv_initial: "report_inv (initial_report c m s)"
  by (simp add: report_inv_def initial_report_def field_inv_def rule_names_def)

lemma report_inv_push:
  "report_inv p \<Longrightarrow> run_ok x \<Longrightarrow> nonneg_elem x \<Longrightarrow> report_inv (push p me x)"
  by (induction p) (auto simp: report_inv_def field_inv_def split: field.splits)

lemma report_inv_emit:
  "report_inv p \<Longrightarrow> r \<noteq> Some [] \<Longrightarrow> report_inv (emit p me r)"
proof (cases r)
  case None
  assume "report_inv p"
  then show ?thesis using None by simp
next
  case (Some pts)
  assume i: "report_inv p" and "r \<noteq> Some []"
  then have ne: "pts \<noteq> []" using Some by simp
  have "nonneg_elem (A (map real pts))" by (simp add: list_all_iff)
  then show ?thesis using Some i ne by (simp add: report_inv_push)
qed

lemma report_inv_rules_at:
  assumes "length (Zone_zones z) = 3" and "report_inv p"
  shows "report_inv (rules_at z d m i p)"
proof -
  have a: "delta d m i \<noteq> Some []" using delta_Some [of d m i "[]"] by auto
  have b: "echo d i \<noteq> Some []" using echo_Some [of d i "[]"] by auto
  have c: "hotel d i \<noteq> Some []" using hotel_Some [of d i "[]"] by auto
  show ?thesis
    unfolding rules_at_eq [OF assms(1)]
    by (intro report_inv_emit assms(2) a b c)
qed

lemma report_inv_rules_loop:
  "length (Zone_zones z) = 3 \<Longrightarrow> report_inv p \<Longrightarrow> report_inv (rules_loop z d m p)"
  by (simp add: rules_loop_eq report_inv_rules_at)

lemma concat_elems_nonempty:
  "es \<noteq> [] \<Longrightarrow> list_all run_ok es \<Longrightarrow> concat_elems es \<noteq> []"
  by (induction es rule: concat_elems.induct) auto

lemma set_js_Set: "set (js_Set c) = set c"
  by (simp add: js_Set_def)

lemma collapse_array_total:
  assumes "es \<noteq> []" and "list_all run_ok es"
  shows "\<exists>seq. collapse_array es = Inr seq"
proof -
  have "length (sort (js_Set (concat_elems es))) = length (js_Set (concat_elems es))"
    by simp
  moreover have "js_Set (concat_elems es) \<noteq> []"
    using concat_elems_nonempty [OF assms] by (simp add: js_Set_def)
  ultimately have "sort (js_Set (concat_elems es)) \<noteq> []"
    by (metis length_0_conv)
  then show ?thesis
    by (cases "sort (js_Set (concat_elems es))") (simp_all add: collapse_array_def)
qed

lemma collapse_field_total:
  assumes "field_inv (k, v)"
  shows "\<exists>v'. collapse_field k v = Inr v'"
proof (cases v)
  case (FArr es)
  show ?thesis
  proof (cases "es = []")
    case True
    then show ?thesis by (simp add: collapse_field_def FArr)
  next
    case False
    have "list_all run_ok es" using assms FArr by (simp add: field_inv_def)
    from collapse_array_total [OF False this] obtain seq where "collapse_array es = Inr seq" ..
    then show ?thesis using False by (simp add: collapse_field_def FArr)
  qed
qed (simp_all add: collapse_field_def)

lemma collapse_total: "report_inv p \<Longrightarrow> \<exists>out. collapse p = Inr out"
proof (induction p)
  case Nil
  then show ?case by simp
next
  case (Cons kv p)
  obtain k v where kv: "kv = (k, v)" by (cases kv)
  from Cons.prems have f: "field_inv (k, v)" and r: "report_inv p"
    by (simp_all add: report_inv_def kv)
  from collapse_field_total [OF f] obtain v' where a: "collapse_field k v = Inr v'" ..
  from Cons.IH [OF r] obtain out where b: "collapse p = Inr out" ..
  show ?case by (simp add: kv a b)
qed

lemma field_of_collapse:
  "collapse p = Inr out \<Longrightarrow> field_of p k = Some v \<Longrightarrow>
   \<exists>v'. collapse_field k v = Inr v' \<and> field_of out k = Some v'"
proof (induction p arbitrary: out)
  case Nil
  then show ?case by (simp add: field_of_def)
next
  case (Cons kv p)
  obtain j w where kv: "kv = (j, w)" by (cases kv)
  from Cons.prems(1) obtain w' out' where
    a: "collapse_field j w = Inr w'" and b: "collapse p = Inr out'" and o: "out = (j, w') # out'"
    by (auto simp: kv split: sum.splits)
  show ?case
  proof (cases "j = k")
    case True
    then show ?thesis using Cons.prems(2) a o by (simp add: kv field_of_def)
  next
    case False
    then have "field_of p k = Some v" using Cons.prems(2) by (simp add: kv field_of_def)
    from Cons.IH [OF b this] show ?thesis using False o by (simp add: field_of_def)
  qed
qed

section \<open>The label rules\<close>

lemma field_of_initial:
  "field_of (initial_report c m s) ''alpha'' = Some (FArr [])"
  "field_of (initial_report c m s) ''bravo'' = Some (FArr [])"
  "field_of (initial_report c m s) ''charlie'' = Some (FArr [])"
  "field_of (initial_report c m s) ''foxtrot'' = Some (FArr [])"
  "field_of (initial_report c m s) ''golf'' = Some (FArr [])"
  by (simp_all add: field_of_def initial_report_def)

lemma collapse_field_empty: "collapse_field k (FArr []) = Inr (FArr [])"
  by (simp add: collapse_field_def)

lemma patterns_total:
  assumes "4 \<le> length d"
  shows "\<exists>r. patterns rd c d col = Inr r"
proof -
  let ?z = "Zone_of rd (ss_mean d) (ss_standardDeviation d) d"
  let ?p = "rules_loop ?z d (ss_mean d) (initial_report c (ss_mean d) (ss_standardDeviation d))"
  have "report_inv ?p"
    by (intro report_inv_rules_loop Zone_of_zones report_inv_initial)
  from collapse_total [OF this] obtain out where "collapse ?p = Inr out" ..
  then show ?thesis using assms by (simp add: patterns_eq Let_def)
qed

lemma label_field_empty:
  assumes r: "patterns rd c d col = Inr r"
    and k: "k \<noteq> ''delta''" "k \<noteq> ''echo''" "k \<noteq> ''hotel''"
    and i: "field_of (initial_report c (ss_mean d) (ss_standardDeviation d)) k = Some (FArr [])"
  shows "field_of r k = Some (FArr [])"
proof -
  let ?z = "Zone_of rd (ss_mean d) (ss_standardDeviation d) d"
  let ?p = "rules_loop ?z d (ss_mean d) (initial_report c (ss_mean d) (ss_standardDeviation d))"
  have ne: "4 \<le> length d" by (rule patterns_Inr_length [OF r])
  have p: "field_of ?p k = Some (FArr [])"
    using rules_loop_other [OF Zone_of_zones k] i by simp
  show ?thesis
  proof (cases col)
    case False
    then have "r = ?p" using r ne by (simp add: patterns_eq Let_def)
    then show ?thesis using p by simp
  next
    case True
    then have "collapse ?p = Inr r" using r ne by (simp add: patterns_eq Let_def)
    from field_of_collapse [OF this p] show ?thesis by (simp add: collapse_field_empty)
  qed
qed

subsection \<open>The sample of the documentation\<close>

lemma readme_mean: "ss_mean readme_series = 1481 / 30"
  by (simp add: ss_mean_def readme_series_def)

lemma readme_variance: "ss_variance readme_series = 128819 / 900"
  by (simp add: ss_variance_def ss_mean_def readme_series_def power2_eq_square)

lemma readme_std_bounds:
  "21 / 2 \<le> ss_standardDeviation readme_series" "ss_standardDeviation readme_series \<le> 12"
proof -
  show "21 / 2 \<le> ss_standardDeviation readme_series"
    unfolding ss_standardDeviation_def readme_variance
    by (rule real_le_rsqrt) (simp add: power2_eq_square)
  show "ss_standardDeviation readme_series \<le> 12"
    unfolding ss_standardDeviation_def readme_variance
    by (rule real_le_lsqrt) (simp_all add: power2_eq_square)
qed

lemma which_X_iff:
  "0 \<le> s \<Longrightarrow> (which (make_zones exact m s) v = ''X'') = (v < m - s * 3 \<or> m + s * 3 \<le> v)"
  by (auto simp: which_make_zones exact_bounds)

lemma readme_label_X:
  assumes "(18 \<le> v \<and> v \<le> 75) \<or> v = 87"
  shows "(which (make_zones exact (ss_mean readme_series) (ss_standardDeviation readme_series)) v = ''X'') = (v = 87)"
proof -
  let ?s = "ss_standardDeviation readme_series"
  have s: "21 / 2 \<le> ?s" "?s \<le> 12" by (rule readme_std_bounds)+
  then have s0: "0 \<le> ?s" by simp
  show ?thesis
    unfolding which_X_iff [OF s0] readme_mean using assms s by auto
qed

lemma readme_X_indices:
  "filter (\<lambda>i. Zone_dataZones (Zone_of exact (ss_mean readme_series) (ss_standardDeviation readme_series) readme_series) ! i = ''X'')
      [0 ..< length readme_series] = [46]"
proof -
  have a: "\<forall>v \<in> set readme_series. (18 \<le> v \<and> v \<le> 75) \<or> v = 87"
    by (simp add: readme_series_def)
  have l: "length readme_series = 60" by (simp add: readme_series_def)
  have "filter (\<lambda>i. Zone_dataZones (Zone_of exact (ss_mean readme_series) (ss_standardDeviation readme_series) readme_series) ! i = ''X'')
          [0 ..< length readme_series]
      = filter (\<lambda>i. readme_series ! i = 87) [0 ..< length readme_series]"
    by (rule filter_cong [OF refl]) (use a readme_label_X in \<open>auto simp: Zone_of_sel\<close>)
  also have "\<dots> = [46]"
    unfolding l by (simp add: readme_series_def upt_rec)
  finally show ?thesis .
qed

subsection \<open>The label fields of every report\<close>

text \<open>
  C9. For every valid input sample for which \<open>patterns\<close> returns a report (the statistics
  library accepts samples of at least four points), the fields alpha, bravo, charlie,
  foxtrot and golf of the report are empty, with or without collapsing: the rule loop
  runs over \<open>z.zones\<close>, the three zone records, and a zone record is never strictly equal
  to one of the strings "X", "A", "C".
\<close>

theorem label_rules_never_fire:
  assumes "4 \<le> length d"
  shows "\<exists>r. patterns rd c d col = Inr r \<and>
             field_of r ''alpha'' = Some (FArr []) \<and>
             field_of r ''bravo'' = Some (FArr []) \<and>
             field_of r ''charlie'' = Some (FArr []) \<and>
             field_of r ''foxtrot'' = Some (FArr []) \<and>
             field_of r ''golf'' = Some (FArr []) \<and>
             (\<exists>z. Zone_constructor rd d = Inr z \<and> length (Zone_zones z) = 3 \<and>
                  (\<forall>j s. zones_at z j \<noteq> Str s))"
proof -
  from patterns_total [OF assms] obtain r where r: "patterns rd c d col = Inr r" ..
  have ne: "d \<noteq> []" using assms by auto
  have "field_of r ''alpha'' = Some (FArr [])"
    by (rule label_field_empty [OF r]) (simp_all add: field_of_initial)
  moreover have "field_of r ''bravo'' = Some (FArr [])"
    by (rule label_field_empty [OF r]) (simp_all add: field_of_initial)
  moreover have "field_of r ''charlie'' = Some (FArr [])"
    by (rule label_field_empty [OF r]) (simp_all add: field_of_initial)
  moreover have "field_of r ''foxtrot'' = Some (FArr [])"
    by (rule label_field_empty [OF r]) (simp_all add: field_of_initial)
  moreover have "field_of r ''golf'' = Some (FArr [])"
    by (rule label_field_empty [OF r]) (simp_all add: field_of_initial)
  moreover have "Zone_constructor rd d = Inr (Zone_of rd (ss_mean d) (ss_standardDeviation d) d)"
    using ne by (simp add: Zone_constructor_eq)
  ultimately show ?thesis
    using r Zone_of_zones zones_at_not_Str by blast
qed

text \<open>
  The 60-point series of the README, collapsed, whatever the collaborators return: the
  labels of \<open>Zone\<close> mark the point of index 46 as X, and the alpha field is empty.
\<close>

theorem label_rules_never_fire_witness:
  "\<forall>rd c. 4 \<le> length readme_series \<and>
       filter (\<lambda>i. Zone_dataZones (Zone_of exact (ss_mean readme_series) (ss_standardDeviation readme_series) readme_series) ! i = ''X'')
          [0 ..< length readme_series] = [46] \<and>
       (\<exists>r. patterns rd c readme_series True = Inr r \<and>
            field_of r ''alpha'' = Some (FArr []) \<and>
            field_of r ''bravo'' = Some (FArr []) \<and>
            field_of r ''charlie'' = Some (FArr []) \<and>
            field_of r ''foxtrot'' = Some (FArr []) \<and>
            field_of r ''golf'' = Some (FArr []) \<and>
            (\<exists>z. Zone_constructor rd readme_series = Inr z \<and> length (Zone_zones z) = 3 \<and>
                 (\<forall>j s. zones_at z j \<noteq> Str s)))"
proof -
  have n: "4 \<le> length readme_series" by (simp add: readme_series_def)
  show ?thesis using label_rules_never_fire [OF n] n readme_X_indices by blast
qed

section \<open>The rule loop on concrete samples\<close>

text \<open>
  The report of \<open>patterns\<close> in terms of the three rules that can fire, at the start
  indices 0, 1 and 2 that the outer loop visits.
\<close>

lemma upt7: "[i ..< i + 7] = [i, i + 1, i + 2, i + 3, i + 4, i + 5, i + 6]"
  by (simp add: upt_rec)

lemma upt14: "[i ..< i + 14] = [i, i + 1, i + 2, i + 3, i + 4, i + 5, i + 6, i + 7, i + 8, i + 9, i + 10, i + 11, i + 12, i + 13]"
  by (simp add: upt_rec)

lemma delta_window:
  "delta d m i =
     (case fold (delta_step d m) [i, i + 1, i + 2, i + 3, i + 4, i + 5, i + 6] ([], 0, None) of
        (pts, n, above') \<Rightarrow> if n \<ge> 7 then Some pts else None)"
  by (simp only: delta_def upt7)

lemma echo_window:
  "echo d i =
     (case fold (echo_step d) [i, i + 1, i + 2, i + 3, i + 4, i + 5, i + 6] ([], 0, 0, []) of
        (pts, n, prev, dir) \<Rightarrow> if n \<ge> 7 then Some pts else None)"
  by (simp only: echo_def upt7)

lemma hotel_window:
  "hotel d i =
     (case hotel_loop d [i, i + 1, i + 2, i + 3, i + 4, i + 5, i + 6, i + 7, i + 8, i + 9, i + 10, i + 11, i + 12, i + 13] ([], 0, 0, []) of
        (pts, n, prev, dir) \<Rightarrow> if n \<ge> 14 then Some pts else None)"
  by (simp only: hotel_def upt14)

lemma data_at_Cons: "data_at (x # xs) j = (if j = 0 then Some x else data_at xs (j - 1))"
  by (auto simp: data_at_def)

lemma data_at_Nil: "data_at [] j = None"
  by (simp add: data_at_def)

lemmas window_eval = delta_window echo_window hotel_window delta_step_def echo_step_def
  data_at_Cons data_at_Nil


lemma patterns_emits:
  assumes "4 \<le> length d"
  shows "patterns rd c d col =
     (let m = ss_mean d;
          p0 = initial_report c m (ss_standardDeviation d);
          p1 = emit (emit (emit p0 ''delta'' (delta d m 0)) ''echo'' (echo d 0)) ''hotel'' (hotel d 0);
          p2 = emit (emit (emit p1 ''delta'' (delta d m 1)) ''echo'' (echo d 1)) ''hotel'' (hotel d 1);
          p3 = emit (emit (emit p2 ''delta'' (delta d m 2)) ''echo'' (echo d 2)) ''hotel'' (hotel d 2)
      in if col then collapse p3 else Inr p3)"
  using assms by (simp add: patterns_eq Let_def rules_loop_eq rules_at_eq Zone_of_zones)

text \<open>
  C1 (the code differs). The claim: every rule is evaluated at every start index \<open>i\<close> with
  \<open>i + L \<le> n\<close>, and a qualifying window is always reported. On the sample
  \<open>[10, 0, 10, 1, 1, 1, 1, 1, 1, 1]\<close> the window of seven points starting at index 3 fits,
  all its points lie below the mean and the delta detector accepts it, but the report of
  \<open>patterns\<close> is the initial report: its delta field is empty, since the outer loop stops
  after the start indices 0, 1, 2.
\<close>

theorem late_window_not_reported:
  "delta [10, 0, 10, 1, 1, 1, 1, 1, 1, 1] (ss_mean [10, 0, 10, 1, 1, 1, 1, 1, 1, 1]) 3 = Some [3, 4, 5, 6, 7, 8, 9] \<and>
   list_all (\<lambda>v. v < ss_mean [10, 0, 10, 1, 1, 1, 1, 1, 1, 1]) (take 7 (drop 3 [10, 0, 10, 1, 1, 1, 1, 1, 1, 1])) \<and>
   patterns rd c [10, 0, 10, 1, 1, 1, 1, 1, 1, 1] False =
     Inr (initial_report c (ss_mean [10, 0, 10, 1, 1, 1, 1, 1, 1, 1]) (ss_standardDeviation [10, 0, 10, 1, 1, 1, 1, 1, 1, 1])) \<and>
   field_of (initial_report c (ss_mean [10, 0, 10, 1, 1, 1, 1, 1, 1, 1]) (ss_standardDeviation [10, 0, 10, 1, 1, 1, 1, 1, 1, 1])) ''delta'' = Some (FArr [])"
proof -
  let ?d = "[10, 0, 10, 1, 1, 1, 1, 1, 1, 1] :: real list"
  have m: "ss_mean ?d = 27 / 10" by (simp add: ss_mean_def)
  have n: "4 \<le> length ?d" by simp
  have d3: "delta ?d (27 / 10) 3 = Some [3, 4, 5, 6, 7, 8, 9]"
    by (simp add: window_eval)
  have dl: "delta ?d (27 / 10) 0 = None" "delta ?d (27 / 10) 1 = None" "delta ?d (27 / 10) 2 = None"
    by (simp_all add: window_eval)
  have ec: "echo ?d 0 = None" "echo ?d 1 = None" "echo ?d 2 = None"
    by (simp_all add: window_eval)
  have ht: "hotel ?d 0 = None" "hotel ?d 1 = None" "hotel ?d 2 = None"
    by (simp_all add: window_eval)
  have p: "patterns rd c ?d False = Inr (initial_report c (ss_mean ?d) (ss_standardDeviation ?d))"
    unfolding patterns_emits [OF n] m by (simp add: Let_def dl ec ht del: One_nat_def)
  have w: "list_all (\<lambda>v. v < ss_mean ?d) (take 7 (drop 3 ?d))"
    unfolding m by simp
  have f: "field_of (initial_report c (ss_mean ?d) (ss_standardDeviation ?d)) ''delta'' = Some (FArr [])"
    by (simp add: field_of_def initial_report_def)
  from d3 w p f show ?thesis unfolding m by blast
qed

text \<open>
  C7 (the code differs). The claim: the echo rule emits a window of seven points exactly
  when the points are strictly monotonic, and never when the first two are equal. On the
  sample \<open>[5, 5, 4, 3, 2, 1, 0]\<close> the first two points are equal, the direction is set to
  "down", and the window is emitted.
\<close>

theorem echo_equal_start_emitted:
  "\<exists>r. patterns rd c [5, 5, 4, 3, 2, 1, 0] False = Inr r \<and>
       field_of r ''echo'' = Some (FArr [A [0, 1, 2, 3, 4, 5, 6]])"
proof -
  let ?d = "[5, 5, 4, 3, 2, 1, 0] :: real list"
  have m: "ss_mean ?d = 20 / 7" by (simp add: ss_mean_def)
  have n: "4 \<le> length ?d" by simp
  have dl: "delta ?d (20 / 7) 0 = None" "delta ?d (20 / 7) 1 = None" "delta ?d (20 / 7) 2 = None"
    by (simp_all add: window_eval)
  have ec: "echo ?d 0 = Some [0, 1, 2, 3, 4, 5, 6]" "echo ?d 1 = None" "echo ?d 2 = None"
    by (simp_all add: window_eval)
  have ht: "hotel ?d 0 = None" "hotel ?d 1 = None" "hotel ?d 2 = None"
    by (simp_all add: window_eval)
  have p: "patterns rd c ?d False =
      Inr (push (initial_report c (ss_mean ?d) (ss_standardDeviation ?d)) ''echo'' (A [0, 1, 2, 3, 4, 5, 6]))"
    unfolding patterns_emits [OF n] m by (simp add: Let_def dl ec ht del: One_nat_def)
  have f: "field_of (push (initial_report c (ss_mean ?d) (ss_standardDeviation ?d)) ''echo'' (A [0, 1, 2, 3, 4, 5, 6])) ''echo''
      = Some (FArr [A [0, 1, 2, 3, 4, 5, 6]])"
    by (rule field_of_push_same [where es = "[]", simplified]) (simp add: field_of_def initial_report_def)
  from p f show ?thesis by blast
qed

text \<open>
  C2 (the code differs). The claim: for the 60-point series, \<open>patterns\<close> returns the alpha
  field \<open>[46]\<close> without collapsing and \<open>[[46]]\<close> with collapsing, and an empty bravo field.
  The zone labels computed by \<open>Zone\<close> mark exactly the point of index 46 as X, but the alpha
  field of the report is empty in both modes (the bravo field is empty too).
\<close>

theorem readme_series_alpha_empty:
  "Zone_constructor exact readme_series =
     Inr (Zone_of exact (ss_mean readme_series) (ss_standardDeviation readme_series) readme_series) \<and>
   filter (\<lambda>i. Zone_dataZones (Zone_of exact (ss_mean readme_series) (ss_standardDeviation readme_series) readme_series) ! i = ''X'')
      [0 ..< length readme_series] = [46] \<and>
   (\<exists>r. patterns rd c readme_series False = Inr r \<and>
        field_of r ''alpha'' = Some (FArr []) \<and> field_of r ''bravo'' = Some (FArr [])) \<and>
   (\<exists>r. patterns rd c readme_series True = Inr r \<and>
        field_of r ''alpha'' = Some (FArr []) \<and> field_of r ''bravo'' = Some (FArr []))"
proof -
  have n: "4 \<le> length readme_series" by (simp add: readme_series_def)
  have "readme_series \<noteq> []" using n by auto
  then have z: "Zone_constructor exact readme_series =
     Inr (Zone_of exact (ss_mean readme_series) (ss_standardDeviation readme_series) readme_series)"
    by (simp add: Zone_constructor_eq)
  have a: "\<exists>r. patterns rd c readme_series col = Inr r \<and>
        field_of r ''alpha'' = Some (FArr []) \<and> field_of r ''bravo'' = Some (FArr [])" for col
  proof -
    from patterns_total [OF n] obtain r where r: "patterns rd c readme_series col = Inr r" ..
    have "field_of r ''alpha'' = Some (FArr [])"
      by (rule label_field_empty [OF r]) (simp_all add: field_of_initial)
    moreover have "field_of r ''bravo'' = Some (FArr [])"
      by (rule label_field_empty [OF r]) (simp_all add: field_of_initial)
    ultimately show ?thesis using r by blast
  qed
  from z readme_X_indices a [of False] a [of True] show ?thesis by blast
qed

section \<open>collapse on the rule fields\<close>

lemma collapse_loop_concat:
  "0 \<notin> set zs \<Longrightarrow> concat (collapse_loop zs seq str prev) = concat seq @ str @ zs"
  by (induction zs arbitrary: seq str prev) auto

lemma consecutive_snoc:
  "str \<noteq> [] \<Longrightarrow> consecutive str \<Longrightarrow> consecutive (str @ [last str + 1])"
  by (induction str rule: consecutive.induct) auto

lemma maximal_ranges_extend:
  "str \<noteq> [] \<Longrightarrow> maximal_ranges (seq @ [str]) \<Longrightarrow> maximal_ranges (seq @ [str @ [x]])"
proof (induction seq)
  case Nil
  then show ?case by simp
next
  case (Cons a seq)
  then show ?case by (cases seq) auto
qed

lemma maximal_ranges_new:
  "maximal_ranges (seq @ [str]) \<Longrightarrow> last str + 1 \<noteq> x \<Longrightarrow> maximal_ranges ((seq @ [str]) @ [[x]])"
proof (induction seq)
  case Nil
  then show ?case by simp
next
  case (Cons a seq)
  then show ?case by (cases seq) auto
qed

lemma collapse_loop_ranges:
  assumes "0 \<notin> set zs" and "str \<noteq> []" and "last str = prev" and "consecutive str"
    and "list_all consecutive seq" and "list_all (\<lambda>r. r \<noteq> []) seq"
    and "maximal_ranges (seq @ [str])"
  shows "list_all consecutive (collapse_loop zs seq str prev) \<and>
         list_all (\<lambda>r. r \<noteq> []) (collapse_loop zs seq str prev) \<and>
         maximal_ranges (collapse_loop zs seq str prev)"
  using assms
proof (induction zs arbitrary: seq str prev)
  case Nil
  then show ?case by simp
next
  case (Cons zi zs)
  have z0: "0 \<notin> set zs" and nz: "zi \<noteq> 0" using Cons.prems(1) by auto
  show ?case
  proof (cases "zi = prev + 1")
    case True
    have a: "consecutive (str @ [zi])"
      using consecutive_snoc [OF Cons.prems(2) Cons.prems(4)] True Cons.prems(3) by simp
    have b: "maximal_ranges (seq @ [str @ [zi]])"
      by (rule maximal_ranges_extend [OF Cons.prems(2) Cons.prems(7)])
    have "list_all consecutive (collapse_loop zs seq (str @ [zi]) zi) \<and>
          list_all (\<lambda>r. r \<noteq> []) (collapse_loop zs seq (str @ [zi]) zi) \<and>
          maximal_ranges (collapse_loop zs seq (str @ [zi]) zi)"
      by (rule Cons.IH [OF z0 _ _ a Cons.prems(5) Cons.prems(6) b]) simp_all
    then show ?thesis using True by simp
  next
    case False
    have a: "list_all consecutive (seq @ [str])" using Cons.prems(4,5) by simp
    have b: "list_all (\<lambda>r. r \<noteq> []) (seq @ [str])" using Cons.prems(2,6) by simp
    have c: "maximal_ranges ((seq @ [str]) @ [[zi]])"
      using maximal_ranges_new [OF Cons.prems(7), of zi] False Cons.prems(3) by auto
    have "list_all consecutive (collapse_loop zs (seq @ [str]) [zi] zi) \<and>
          list_all (\<lambda>r. r \<noteq> []) (collapse_loop zs (seq @ [str]) [zi] zi) \<and>
          maximal_ranges (collapse_loop zs (seq @ [str]) [zi] zi)"
      by (rule Cons.IH [OF z0 _ _ _ a b c]) simp_all
    then show ?thesis using False nz by simp
  qed
qed

lemma concat_elems_map_A: "concat_elems (map A rs) = concat rs"
  by (induction rs) simp_all

lemma nonneg_concat_elems:
  "list_all nonneg_elem es \<Longrightarrow> x \<in> set (concat_elems es) \<Longrightarrow> 0 \<le> x"
  by (induction es rule: concat_elems.induct) (auto simp: list_all_iff)

lemma strict_sorted_sort_js_Set: "sorted_wrt (<) (sort (js_Set c))"
proof -
  have "distinct (js_Set c)" by (simp add: js_Set_def)
  then show ?thesis by (simp add: strict_sorted_iff)
qed

lemma collapse_array_ranges:
  assumes ne: "es \<noteq> []" and ok: "list_all run_ok es" and nn: "list_all nonneg_elem es"
  shows "\<exists>ranges. collapse_array es = Inr (map A ranges) \<and>
           concat ranges = sort (js_Set (concat_elems es)) \<and>
           list_all consecutive ranges \<and> list_all (\<lambda>r. r \<noteq> []) ranges \<and> maximal_ranges ranges"
proof -
  let ?z = "sort (js_Set (concat_elems es))"
  have "length ?z = length (js_Set (concat_elems es))" by simp
  moreover have "js_Set (concat_elems es) \<noteq> []"
    using concat_elems_nonempty [OF ne ok] by (simp add: js_Set_def)
  ultimately have "?z \<noteq> []" by (metis length_0_conv)
  then obtain z0 rest where z: "?z = z0 # rest" by (cases ?z) auto
  have st: "sorted_wrt (<) (z0 # rest)" using strict_sorted_sort_js_Set [of "concat_elems es"] z by simp
  have "z0 \<in> set ?z" using z by simp
  then have "z0 \<in> set (concat_elems es)" by (simp add: set_js_Set)
  then have z0: "0 \<le> z0" using nonneg_concat_elems [OF nn] by blast
  have nz: "0 \<notin> set rest" using st z0 by auto
  let ?R = "collapse_loop rest [] [z0] z0"
  have c: "concat ?R = ?z" using collapse_loop_concat [OF nz, of "[]" "[z0]" z0] z by simp
  have p: "list_all consecutive ?R \<and> list_all (\<lambda>r. r \<noteq> []) ?R \<and> maximal_ranges ?R"
    by (rule collapse_loop_ranges [OF nz]) simp_all
  have "collapse_array es = Inr (map A ?R)" by (simp add: collapse_array_def z)
  then show ?thesis using c p by blast
qed

lemma field_of_push_FArr:
  assumes "field_of p k = Some (FArr es)"
  shows "\<exists>es'. field_of (push p me x) k = Some (FArr es')"
proof (cases "k = me")
  case True
  then show ?thesis using field_of_push_same [of p me es x] assms by simp
next
  case False
  then show ?thesis using field_of_push_other [of k me p x] assms by simp
qed

lemma field_of_emit_FArr:
  assumes "\<exists>es. field_of p k = Some (FArr es)"
  shows "\<exists>es'. field_of (emit p me r) k = Some (FArr es')"
proof (cases r)
  case None
  then show ?thesis using assms by simp
next
  case (Some pts)
  from assms obtain es where "field_of p k = Some (FArr es)" ..
  from field_of_push_FArr [OF this] show ?thesis using Some by simp
qed

lemma field_of_rules_loop_FArr:
  assumes z: "length (Zone_zones z) = 3" and p: "\<exists>es. field_of p k = Some (FArr es)"
  shows "\<exists>es'. field_of (rules_loop z d m p) k = Some (FArr es')"
  unfolding rules_loop_eq [OF z] rules_at_eq [OF z]
  by (intro field_of_emit_FArr p)

lemma field_of_initial_rule:
  "f \<in> set rule_names \<Longrightarrow> \<exists>es. field_of (initial_report c m s) f = Some (FArr es)"
  by (auto simp: rule_names_def field_of_def initial_report_def)

lemma report_inv_field:
  assumes "report_inv p" and "field_of p k = Some v"
  shows "field_inv (k, v)"
proof -
  have "(k, v) \<in> set p" using assms(2) by (simp add: field_of_def map_of_SomeD)
  then show ?thesis using assms(1) by (simp add: report_inv_def list_all_iff)
qed

text \<open>
  C8. For every report produced by \<open>patterns\<close> and every rule field, collapsing succeeds
  and the set of indices of the collapsed field is the set of indices of the uncollapsed
  run list; the collapsed field is a list of non-empty ranges of consecutive integers,
  sorted and disjoint (their concatenation is strictly increasing) and maximal (no range
  continues the one before it).
\<close>

theorem collapse_preserves_indices:
  assumes "patterns rd c d False = Inr r" and "f \<in> set rule_names"
  shows "\<exists>r' ranges. patterns rd c d True = Inr r' \<and> collapse r = Inr r' \<and>
           field_of r' f = Some (FArr (map A ranges)) \<and>
           indices_of (field_of r' f) = indices_of (field_of r f) \<and>
           sorted_wrt (<) (concat ranges) \<and>
           list_all consecutive ranges \<and> list_all (\<lambda>g. g \<noteq> []) ranges \<and>
           maximal_ranges ranges"
proof -
  let ?z = "Zone_of rd (ss_mean d) (ss_standardDeviation d) d"
  let ?p = "rules_loop ?z d (ss_mean d) (initial_report c (ss_mean d) (ss_standardDeviation d))"
  have ne: "4 \<le> length d" by (rule patterns_Inr_length [OF assms(1)])
  have r: "r = ?p" using assms(1) ne by (simp add: patterns_eq Let_def)
  have inv: "report_inv r"
    unfolding r by (intro report_inv_rules_loop Zone_of_zones report_inv_initial)
  from collapse_total [OF inv] obtain r' where c: "collapse r = Inr r'" ..
  have t: "patterns rd c d True = Inr r'" using c r ne by (simp add: patterns_eq Let_def)
  from field_of_rules_loop_FArr [OF Zone_of_zones field_of_initial_rule [OF assms(2)]]
  obtain es where f: "field_of r f = Some (FArr es)" unfolding r by blast
  from field_of_collapse [OF c f] obtain v' where
    cf: "collapse_field f (FArr es) = Inr v'" and f': "field_of r' f = Some v'" by blast
  have fi: "field_inv (f, FArr es)" by (rule report_inv_field [OF inv f])
  have ok: "list_all run_ok es" and nn: "list_all nonneg_elem es"
    using fi assms(2) by (simp_all add: field_inv_def)
  have us: "\<not> starts_with_underscore f"
    using assms(2) by (auto simp: rule_names_def starts_with_underscore_def)
  show ?thesis
  proof (cases "es = []")
    case True
    then have v: "v' = FArr (map A [])" using cf by (simp add: collapse_field_empty)
    then have a: "field_of r' f = Some (FArr (map A []))" using f' by simp
    have b: "indices_of (field_of r' f) = indices_of (field_of r f)"
      using f f' True v by (simp add: indices_of_def)
    show ?thesis using t c a b
      by (intro exI [of _ r'] exI [of _ "[]"]) simp
  next
    case False
    from collapse_array_ranges [OF False ok nn] obtain ranges where
      ca: "collapse_array es = Inr (map A ranges)" and
      cc: "concat ranges = sort (js_Set (concat_elems es))" and
      pr: "list_all consecutive ranges" "list_all (\<lambda>g. g \<noteq> []) ranges" "maximal_ranges ranges"
      by blast
    have v: "v' = FArr (map A ranges)"
      using cf False us ca by (simp add: collapse_field_def)
    have s: "sorted_wrt (<) (concat ranges)"
      unfolding cc by (rule strict_sorted_sort_js_Set)
    have "set (concat ranges) = set (concat_elems es)"
      unfolding cc by (simp add: set_js_Set)
    then have i: "indices_of (field_of r' f) = indices_of (field_of r f)"
      using f f' v by (simp add: indices_of_def concat_elems_map_A)
    show ?thesis using t c f' v i s pr by blast
  qed
qed

text \<open>
  The sample of eight ones and one hundred has mean 12: the delta rule fires at the start
  indices 0 and 1, the two runs overlap, and collapsing gives the single range 0..7.
\<close>

theorem collapse_preserves_indices_witness:
  "\<forall>rd c. patterns rd c [1, 1, 1, 1, 1, 1, 1, 1, 100] False =
         Inr (push (push (initial_report c 12 (ss_standardDeviation [1, 1, 1, 1, 1, 1, 1, 1, 100]))
                      ''delta'' (A [0, 1, 2, 3, 4, 5, 6])) ''delta'' (A [1, 2, 3, 4, 5, 6, 7])) \<and>
       ''delta'' \<in> set rule_names \<and>
       (\<exists>r' ranges.
          patterns rd c [1, 1, 1, 1, 1, 1, 1, 1, 100] True = Inr r' \<and>
          field_of r' ''delta'' = Some (FArr (map A ranges)) \<and>
          indices_of (field_of r' ''delta'') = {0, 1, 2, 3, 4, 5, 6, 7} \<and>
          sorted_wrt (<) (concat ranges) \<and> list_all consecutive ranges \<and>
          list_all (\<lambda>g. g \<noteq> []) ranges \<and> maximal_ranges ranges)"
proof (intro allI)
  fix rd :: "real \<Rightarrow> real" and c :: collaborators
  let ?d = "[1, 1, 1, 1, 1, 1, 1, 1, 100] :: real list"
  let ?r = "push (push (initial_report c 12 (ss_standardDeviation ?d))
                      ''delta'' (A [0, 1, 2, 3, 4, 5, 6])) ''delta'' (A [1, 2, 3, 4, 5, 6, 7])"
  have m: "ss_mean ?d = 12" by (simp add: ss_mean_def)
  have n: "4 \<le> length ?d" by simp
  have dl: "delta ?d 12 0 = Some [0, 1, 2, 3, 4, 5, 6]" "delta ?d 12 1 = Some [1, 2, 3, 4, 5, 6, 7]"
    "delta ?d 12 2 = None"
    by (simp_all add: window_eval)
  have ec: "echo ?d 0 = None" "echo ?d 1 = None" "echo ?d 2 = None"
    by (simp_all add: window_eval)
  have ht: "hotel ?d 0 = None" "hotel ?d 1 = None" "hotel ?d 2 = None"
    by (simp_all add: window_eval)
  have p: "patterns rd c ?d False = Inr ?r"
    unfolding patterns_emits [OF n] m by (simp add: Let_def dl ec ht del: One_nat_def)
  have k: "''delta'' \<in> set rule_names" by (simp add: rule_names_def)
  have i: "indices_of (field_of ?r ''delta'') = {0, 1, 2, 3, 4, 5, 6, 7}"
    by (auto simp: indices_of_def field_of_def initial_report_def)
  from collapse_preserves_indices [OF p k] i p k
  show "patterns rd c ?d False = Inr ?r \<and> ''delta'' \<in> set rule_names \<and>
       (\<exists>r' ranges.
          patterns rd c ?d True = Inr r' \<and>
          field_of r' ''delta'' = Some (FArr (map A ranges)) \<and>
          indices_of (field_of r' ''delta'') = {0, 1, 2, 3, 4, 5, 6, 7} \<and>
          sorted_wrt (<) (concat ranges) \<and> list_all consecutive ranges \<and>
          list_all (\<lambda>g. g \<noteq> []) ranges \<and> maximal_ranges ranges)"
    by (metis (no_types, lifting))
qed

section \<open>collapse on the statistics fields\<close>

text \<open>A field that holds a number or an object is copied by \<open>collapse\<close>.\<close>

lemma collapse_keeps_scalars:
  assumes "collapse p = Inr out"
  shows "field_of p k = Some (FNum x) \<Longrightarrow> field_of out k = Some (FNum x)"
    and "field_of p k = Some (FObj ob) \<Longrightarrow> field_of out k = Some (FObj ob)"
proof -
  show "field_of out k = Some (FNum x)" if "field_of p k = Some (FNum x)"
    using field_of_collapse [OF assms that] by (auto simp: collapse_field_def split: if_splits)
  show "field_of out k = Some (FObj ob)" if "field_of p k = Some (FObj ob)"
    using field_of_collapse [OF assms that] by (auto simp: collapse_field_def split: if_splits)
qed

text \<open>
  C3 (the code differs). The claim: collapsing a collapsed report changes nothing. The
  sample \<open>[-2, -2, 0, 0]\<close> has mean \<open>-1\<close> and standard deviation \<open>1\<close>, so the field \<open>1sigma\<close>
  is \<open>[-2, 0]\<close>. The key does not start with an underscore, so \<open>collapse\<close> treats it as a
  run list; \<open>if ( z[ i ] )\<close> fails for the number 0, the sequence is not restarted, and the
  field becomes \<open>[[-2], [-2]]\<close>. A second collapse removes the duplicate and gives \<open>[[-2]]\<close>.
\<close>

theorem collapse_twice_differs:
  "patterns rd c [-2, -2, 0, 0] False = Inr (initial_report c (-1) 1) \<and>
   field_of (initial_report c (-1) 1) ''1sigma'' = Some (FArr [N (-2), N 0]) \<and>
   (\<exists>r1 r2. patterns rd c [-2, -2, 0, 0] True = Inr r1 \<and>
            collapse (initial_report c (-1) 1) = Inr r1 \<and>
            collapse r1 = Inr r2 \<and>
            field_of r1 ''1sigma'' = Some (FArr [A [-2], A [-2]]) \<and>
            field_of r2 ''1sigma'' = Some (FArr [A [-2]]) \<and>
            r2 \<noteq> r1)"
proof -
  let ?d = "[-2, -2, 0, 0] :: real list"
  have m: "ss_mean ?d = -1" by (simp add: ss_mean_def)
  have s: "ss_standardDeviation ?d = 1"
    by (simp add: ss_standardDeviation_def ss_variance_def ss_mean_def)
  have n: "4 \<le> length ?d" by simp
  have dl: "delta ?d (-1) 0 = None" "delta ?d (-1) 1 = None" "delta ?d (-1) 2 = None"
    by (simp_all add: window_eval)
  have ec: "echo ?d 0 = None" "echo ?d 1 = None" "echo ?d 2 = None"
    by (simp_all add: window_eval)
  have ht: "hotel ?d 0 = None" "hotel ?d 1 = None" "hotel ?d 2 = None"
    by (simp_all add: window_eval)
  have p: "patterns rd c ?d False = Inr (initial_report c (-1) 1)"
    unfolding patterns_emits [OF n] m s by (simp add: Let_def dl ec ht del: One_nat_def)
  have t: "patterns rd c ?d True = collapse (initial_report c (-1) 1)"
    unfolding patterns_emits [OF n] m s by (simp add: Let_def dl ec ht del: One_nat_def)
  have f: "field_of (initial_report c (-1) 1) ''1sigma'' = Some (FArr [N (-2), N 0])"
    by (simp add: field_of_def initial_report_def)
  have "\<exists>r1. collapse (initial_report c (-1) 1) = Inr r1 \<and>
          field_of r1 ''1sigma'' = Some (FArr [A [-2], A [-2]]) \<and>
          (\<exists>r2. collapse r1 = Inr r2 \<and> field_of r2 ''1sigma'' = Some (FArr [A [-2]]))"
    by (simp add: initial_report_def collapse_field_def starts_with_underscore_def
        field_of_def collapse_array_def js_Set_def)
  then obtain r1 r2 where
    c1: "collapse (initial_report c (-1) 1) = Inr r1" and
    f1: "field_of r1 ''1sigma'' = Some (FArr [A [-2], A [-2]])" and
    c2: "collapse r1 = Inr r2" and
    f2: "field_of r2 ''1sigma'' = Some (FArr [A [-2]])"
    by blast
  have "r2 \<noteq> r1" using f1 f2 by auto
  then show ?thesis using p t f c1 f1 c2 f2 by auto
qed

text \<open>
  C4 (the code differs). The claim: \<open>collapse\<close> leaves the statistics fields unchanged, the
  sigma pairs included. For the sample \<open>[1, 3, 1, 3]\<close> (mean 2, standard deviation 1) the
  five sigma pairs are reshaped into lists of one-element runs; the fields that hold a
  number, such as the mean and the standard deviation, are copied.
\<close>

theorem collapse_reshapes_sigma_fields:
  "patterns rd c [1, 3, 1, 3] False = Inr (initial_report c 2 1) \<and>
   field_of (initial_report c 2 1) ''1sigma'' = Some (FArr [N 1, N 3]) \<and>
   field_of (initial_report c 2 1) ''2sigma'' = Some (FArr [N 0, N 4]) \<and>
   field_of (initial_report c 2 1) ''3sigma'' = Some (FArr [N (-1), N 5]) \<and>
   field_of (initial_report c 2 1) ''4sigma'' = Some (FArr [N (-2), N 6]) \<and>
   field_of (initial_report c 2 1) ''5sigma'' = Some (FArr [N (-3), N 7]) \<and>
   (\<exists>r'. patterns rd c [1, 3, 1, 3] True = Inr r' \<and>
         collapse (initial_report c 2 1) = Inr r' \<and>
         field_of r' ''1sigma'' = Some (FArr [A [1], A [3]]) \<and>
         field_of r' ''2sigma'' = Some (FArr [A [0], A [4]]) \<and>
         field_of r' ''3sigma'' = Some (FArr [A [-1], A [5]]) \<and>
         field_of r' ''4sigma'' = Some (FArr [A [-2], A [6]]) \<and>
         field_of r' ''5sigma'' = Some (FArr [A [-3], A [7]]) \<and>
         field_of r' ''mean'' = Some (FNum 2) \<and>
         field_of r' ''standardDeviation'' = Some (FNum 1))"
proof -
  let ?d = "[1, 3, 1, 3] :: real list"
  have m: "ss_mean ?d = 2" by (simp add: ss_mean_def)
  have s: "ss_standardDeviation ?d = 1"
    by (simp add: ss_standardDeviation_def ss_variance_def ss_mean_def)
  have n: "4 \<le> length ?d" by simp
  have dl: "delta ?d 2 0 = None" "delta ?d 2 1 = None" "delta ?d 2 2 = None"
    by (simp_all add: window_eval)
  have ec: "echo ?d 0 = None" "echo ?d 1 = None" "echo ?d 2 = None"
    by (simp_all add: window_eval)
  have ht: "hotel ?d 0 = None" "hotel ?d 1 = None" "hotel ?d 2 = None"
    by (simp_all add: window_eval)
  have p: "patterns rd c ?d False = Inr (initial_report c 2 1)"
    unfolding patterns_emits [OF n] m s by (simp add: Let_def dl ec ht del: One_nat_def)
  have t: "patterns rd c ?d True = collapse (initial_report c 2 1)"
    unfolding patterns_emits [OF n] m s by (simp add: Let_def dl ec ht del: One_nat_def)
  have f: "field_of (initial_report c 2 1) ''1sigma'' = Some (FArr [N 1, N 3])"
    "field_of (initial_report c 2 1) ''2sigma'' = Some (FArr [N 0, N 4])"
    "field_of (initial_report c 2 1) ''3sigma'' = Some (FArr [N (-1), N 5])"
    "field_of (initial_report c 2 1) ''4sigma'' = Some (FArr [N (-2), N 6])"
    "field_of (initial_report c 2 1) ''5sigma'' = Some (FArr [N (-3), N 7])"
    by (simp_all add: field_of_def initial_report_def)
  have e: "\<exists>r'. collapse (initial_report c 2 1) = Inr r' \<and>
         field_of r' ''1sigma'' = Some (FArr [A [1], A [3]]) \<and>
         field_of r' ''2sigma'' = Some (FArr [A [0], A [4]]) \<and>
         field_of r' ''3sigma'' = Some (FArr [A [-1], A [5]]) \<and>
         field_of r' ''4sigma'' = Some (FArr [A [-2], A [6]]) \<and>
         field_of r' ''5sigma'' = Some (FArr [A [-3], A [7]]) \<and>
         field_of r' ''mean'' = Some (FNum 2) \<and>
         field_of r' ''standardDeviation'' = Some (FNum 1)"
    by (simp add: initial_report_def collapse_field_def starts_with_underscore_def
        field_of_def collapse_array_def js_Set_def)
  show ?thesis using p t f e by auto
qed

section \<open>What the data rules report\<close>

text \<open>
  The delta and echo rules in closed form. A window that runs past the end of the sample
  never fires. A full window fires for delta when its seven points are all above or all
  below the mean, and for echo when they are strictly increasing, or when the second
  point is not above the first and the points from the second on are strictly decreasing.
\<close>

lemma filter_less_upt_length: "length (filter (\<lambda>j. j < k) [i ..< n]) = min k n - i"
proof -
  have "filter (\<lambda>j. j < k) [i ..< n] = [i ..< min k n]"
    by (induction n) auto
  then show ?thesis by simp
qed

lemma echo_step_len:
  "echo_step d j (pts, n, pv, dr) = (pts1, n1, pv1, dr1) \<Longrightarrow>
   length pts1 \<le> length pts + (if j < length d then 1 else 0)"
  by (auto simp: echo_step_def data_at_def split: if_splits)

lemma echo_fold_len:
  "fold (echo_step d) js (pts, n, pv, dr) = (pts1, n1, pv1, dr1) \<Longrightarrow>
   length pts1 \<le> length pts + length (filter (\<lambda>j. j < length d) js)"
proof (induction js arbitrary: pts n pv dr)
  case Nil
  then show ?case by simp
next
  case (Cons j js)
  obtain p2 n2 v2 d2 where st: "echo_step d j (pts, n, pv, dr) = (p2, n2, v2, d2)"
    by (cases "echo_step d j (pts, n, pv, dr)")
  have a: "length p2 \<le> length pts + (if j < length d then 1 else 0)"
    by (rule echo_step_len [OF st])
  have "fold (echo_step d) js (p2, n2, v2, d2) = (pts1, n1, pv1, dr1)"
    using Cons.prems st by simp
  from Cons.IH [OF this] a show ?case by (simp split: if_splits)
qed

lemma echo_short: "length d < i + 7 \<Longrightarrow> echo d i = None"
proof -
  assume s: "length d < i + 7"
  obtain p1 n1 v1 d1 where f: "fold (echo_step d) [i ..< i + 7] ([], 0, 0, []) = (p1, n1, v1, d1)"
    by (cases "fold (echo_step d) [i ..< i + 7] ([], 0, 0, [])")
  have "n1 \<le> length p1" using echo_fold_count [OF f] by simp
  moreover have "length p1 \<le> min (length d) (i + 7) - i"
    using echo_fold_len [OF f] by (simp add: filter_less_upt_length)
  ultimately have "n1 < 7" using s by simp
  then show ?thesis by (simp add: echo_def f)
qed

lemma data_at_in: "j < length d \<Longrightarrow> data_at d j = Some (d ! j)"
  by (simp add: data_at_def)

lemma echo_chain_up:
  assumes "2 \<le> length pts" and "list_all (\<lambda>j. j < length d) js"
    and "fold (echo_step d) js (pts, n, prev, ''up'') = (pts1, n1, pv1, dr1)"
  shows "n1 \<le> n + length js \<and>
         (n1 = n + length js) = sorted_wrt (<) (prev # map ((!) d) js) \<and>
         (n1 = n + length js \<longrightarrow> pts1 = pts @ js)"
  using assms
proof (induction js arbitrary: pts n prev)
  case Nil
  then show ?case by simp
next
  case (Cons j js)
  have j: "data_at d j = Some (d ! j)" and js: "list_all (\<lambda>j. j < length d) js"
    using Cons.prems(2) by (simp_all add: data_at_in)
  show ?case
  proof (cases "d ! j > prev")
    case True
    have st: "echo_step d j (pts, n, prev, ''up'') = (pts @ [j], n + 1, d ! j, ''up'')"
      using True Cons.prems(1) by (simp add: echo_step_def j)
    have f: "fold (echo_step d) js (pts @ [j], n + 1, d ! j, ''up'') = (pts1, n1, pv1, dr1)"
      using Cons.prems(3) st by simp
    have l: "2 \<le> length (pts @ [j])" using Cons.prems(1) by simp
    from Cons.IH [OF l js f] True show ?thesis by (auto intro: less_trans)
  next
    case False
    have st: "echo_step d j (pts, n, prev, ''up'') = (pts, n, prev, ''up'')"
      using False Cons.prems(1) by (auto simp: echo_step_def j)
    have f: "fold (echo_step d) js (pts, n, prev, ''up'') = (pts1, n1, pv1, dr1)"
      using Cons.prems(3) st by simp
    from Cons.IH [OF Cons.prems(1) js f] False show ?thesis by auto
  qed
qed

lemma echo_chain_down:
  assumes "2 \<le> length pts" and "list_all (\<lambda>j. j < length d) js"
    and "fold (echo_step d) js (pts, n, prev, ''down'') = (pts1, n1, pv1, dr1)"
  shows "n1 \<le> n + length js \<and>
         (n1 = n + length js) = sorted_wrt (>) (prev # map ((!) d) js) \<and>
         (n1 = n + length js \<longrightarrow> pts1 = pts @ js)"
  using assms
proof (induction js arbitrary: pts n prev)
  case Nil
  then show ?case by simp
next
  case (Cons j js)
  have j: "data_at d j = Some (d ! j)" and js: "list_all (\<lambda>j. j < length d) js"
    using Cons.prems(2) by (simp_all add: data_at_in)
  show ?case
  proof (cases "d ! j < prev")
    case True
    have st: "echo_step d j (pts, n, prev, ''down'') = (pts @ [j], n + 1, d ! j, ''down'')"
      using True Cons.prems(1) by (simp add: echo_step_def j)
    have f: "fold (echo_step d) js (pts @ [j], n + 1, d ! j, ''down'') = (pts1, n1, pv1, dr1)"
      using Cons.prems(3) st by simp
    have l: "2 \<le> length (pts @ [j])" using Cons.prems(1) by simp
    from Cons.IH [OF l js f] True show ?thesis by (auto intro: less_trans)
  next
    case False
    have st: "echo_step d j (pts, n, prev, ''down'') = (pts, n, prev, ''down'')"
      using False Cons.prems(1) by (auto simp: echo_step_def j)
    have f: "fold (echo_step d) js (pts, n, prev, ''down'') = (pts1, n1, pv1, dr1)"
      using Cons.prems(3) st by simp
    from Cons.IH [OF Cons.prems(1) js f] False show ?thesis by auto
  qed
qed

lemma echo_full:
  assumes "i + 7 \<le> length d"
  shows "echo d i =
     (if sorted_wrt (<) (map ((!) d) [i, i + 1, i + 2, i + 3, i + 4, i + 5, i + 6]) \<or>
         (d ! (i + 1) \<le> d ! i \<and>
          sorted_wrt (>) (map ((!) d) [i + 1, i + 2, i + 3, i + 4, i + 5, i + 6]))
      then Some [i, i + 1, i + 2, i + 3, i + 4, i + 5, i + 6] else None)"
proof -
  let ?js = "[i + 2, i + 3, i + 4, i + 5, i + 6]"
  let ?dir = "if d ! (i + 1) > d ! i then ''up'' else ''down''"
  have a: "data_at d i = Some (d ! i)" "data_at d (i + 1) = Some (d ! (i + 1))"
    using assms by (simp_all add: data_at_in)
  have js: "list_all (\<lambda>j. j < length d) ?js" using assms by simp
  have two: "fold (echo_step d) [i, i + 1, i + 2, i + 3, i + 4, i + 5, i + 6] ([], 0, 0, []) =
      fold (echo_step d) ?js ([i, i + 1], 2, d ! (i + 1), ?dir)"
    by (simp add: echo_step_def a del: One_nat_def)
  obtain p1 n1 v1 d1 where
    f: "fold (echo_step d) ?js ([i, i + 1], 2, d ! (i + 1), ?dir) = (p1, n1, v1, d1)"
    by (cases "fold (echo_step d) ?js ([i, i + 1], 2, d ! (i + 1), ?dir)")
  show ?thesis
  proof (cases "d ! (i + 1) > d ! i")
    case True
    then have "fold (echo_step d) ?js ([i, i + 1], 2, d ! (i + 1), ''up'') = (p1, n1, v1, d1)"
      using f by simp
    from echo_chain_up [OF _ js this]
    have "n1 \<le> 7" "(n1 = 7) = sorted_wrt (<) (d ! (i + 1) # map ((!) d) ?js)"
      "n1 = 7 \<longrightarrow> p1 = [i, i + 1] @ ?js"
      by simp_all
    then show ?thesis
      unfolding echo_window two f using True by (auto simp del: One_nat_def)
  next
    case False
    then have "fold (echo_step d) ?js ([i, i + 1], 2, d ! (i + 1), ''down'') = (p1, n1, v1, d1)"
      using f by simp
    from echo_chain_down [OF _ js this]
    have "n1 \<le> 7" "(n1 = 7) = sorted_wrt (>) (d ! (i + 1) # map ((!) d) ?js)"
      "n1 = 7 \<longrightarrow> p1 = [i, i + 1] @ ?js"
      by simp_all
    then show ?thesis
      unfolding echo_window two f using False by (auto simp del: One_nat_def)
  qed
qed

lemma echo_iff:
  "echo d i =
     (if i + 7 \<le> length d \<and>
         (sorted_wrt (<) (map ((!) d) [i, i + 1, i + 2, i + 3, i + 4, i + 5, i + 6]) \<or>
          (d ! (i + 1) \<le> d ! i \<and>
           sorted_wrt (>) (map ((!) d) [i + 1, i + 2, i + 3, i + 4, i + 5, i + 6])))
      then Some [i, i + 1, i + 2, i + 3, i + 4, i + 5, i + 6] else None)"
proof (cases "i + 7 \<le> length d")
  case True
  then show ?thesis using echo_full [OF True] by simp
next
  case False
  then have "echo d i = None" by (intro echo_short) simp
  then show ?thesis using False by simp
qed

lemma delta_step_len:
  "delta_step d m j (pts, n, a) = (pts1, n1, a1) \<Longrightarrow>
   length pts1 \<le> length pts + (if j < length d then 1 else 0)"
  by (auto simp: delta_step_def data_at_def Let_def split: if_splits)

lemma delta_fold_len:
  "fold (delta_step d m) js (pts, n, a) = (pts1, n1, a1) \<Longrightarrow>
   length pts1 \<le> length pts + length (filter (\<lambda>j. j < length d) js)"
proof (induction js arbitrary: pts n a)
  case Nil
  then show ?case by simp
next
  case (Cons j js)
  obtain p2 n2 a2 where st: "delta_step d m j (pts, n, a) = (p2, n2, a2)"
    by (cases "delta_step d m j (pts, n, a)")
  have a: "length p2 \<le> length pts + (if j < length d then 1 else 0)"
    by (rule delta_step_len [OF st])
  have "fold (delta_step d m) js (p2, n2, a2) = (pts1, n1, a1)"
    using Cons.prems st by simp
  from Cons.IH [OF this] a show ?case by (simp split: if_splits)
qed

lemma delta_short: "length d < i + 7 \<Longrightarrow> delta d m i = None"
proof -
  assume s: "length d < i + 7"
  obtain p1 n1 a1 where f: "fold (delta_step d m) [i ..< i + 7] ([], 0, None) = (p1, n1, a1)"
    by (cases "fold (delta_step d m) [i ..< i + 7] ([], 0, None)")
  have "n1 \<le> length p1" using delta_fold_count [OF f] by simp
  moreover have "length p1 \<le> min (length d) (i + 7) - i"
    using delta_fold_len [OF f] by (simp add: filter_less_upt_length)
  ultimately have "n1 < 7" using s by simp
  then show ?thesis by (simp add: delta_def f)
qed

lemma delta_chain:
  assumes "pts \<noteq> []" and "list_all (\<lambda>j. j < length d) js"
    and "fold (delta_step d m) js (pts, n, Some b) = (pts1, n1, a1)"
  shows "n1 \<le> n + length js \<and>
         (n1 = n + length js) = list_all (\<lambda>j. if b then d ! j > m else d ! j < m) js \<and>
         pts1 = pts @ js"
  using assms
proof (induction js arbitrary: pts n)
  case Nil
  then show ?case by simp
next
  case (Cons j js)
  have j: "data_at d j = Some (d ! j)" and js: "list_all (\<lambda>j. j < length d) js"
    using Cons.prems(2) by (simp_all add: data_at_in)
  let ?n = "if (if b then d ! j > m else d ! j < m) then n + 1 else n"
  have st: "delta_step d m j (pts, n, Some b) = (pts @ [j], ?n, Some b)"
    using Cons.prems(1) by (auto simp: delta_step_def j Let_def)
  have f: "fold (delta_step d m) js (pts @ [j], ?n, Some b) = (pts1, n1, a1)"
    using Cons.prems(3) st by simp
  have l: "pts @ [j] \<noteq> []" by simp
  from Cons.IH [OF l js f] show ?case by (auto split: if_splits)
qed

lemma delta_full:
  assumes "i + 7 \<le> length d"
  shows "delta d m i =
     (if list_all (\<lambda>v. v > m) (map ((!) d) [i, i + 1, i + 2, i + 3, i + 4, i + 5, i + 6]) \<or>
         list_all (\<lambda>v. v < m) (map ((!) d) [i, i + 1, i + 2, i + 3, i + 4, i + 5, i + 6])
      then Some [i, i + 1, i + 2, i + 3, i + 4, i + 5, i + 6] else None)"
proof -
  let ?js = "[i + 1, i + 2, i + 3, i + 4, i + 5, i + 6]"
  let ?b = "d ! i > m"
  let ?n = "if d ! i > m \<or> d ! i < m then 1 else 0 :: nat"
  have a: "data_at d i = Some (d ! i)"
    using assms by (simp add: data_at_in)
  have js: "list_all (\<lambda>j. j < length d) ?js" using assms by simp
  have st: "delta_step d m i ([], 0, None) = ([i], ?n, Some ?b)"
    by (auto simp: delta_step_def a Let_def)
  have one: "fold (delta_step d m) [i, i + 1, i + 2, i + 3, i + 4, i + 5, i + 6] ([], 0, None) =
      fold (delta_step d m) ?js ([i], ?n, Some ?b)"
    by (simp only: fold_simps comp_apply st)
  obtain p1 n1 a1 where
    f: "fold (delta_step d m) ?js ([i], ?n, Some ?b) = (p1, n1, a1)"
    by (cases "fold (delta_step d m) ?js ([i], ?n, Some ?b)")
  have res: "delta d m i = (if n1 \<ge> 7 then Some p1 else None)"
    unfolding delta_window one f by simp
  have p1: "p1 = [i, i + 1, i + 2, i + 3, i + 4, i + 5, i + 6]"
    using delta_chain [OF _ js f] by simp
  consider (gt) "d ! i > m" | (lt) "d ! i < m" | (eq) "d ! i = m" by linarith
  then show ?thesis
  proof cases
    case gt
    then have "fold (delta_step d m) ?js ([i], 1, Some True) = (p1, n1, a1)"
      using f by simp
    from delta_chain [OF _ js this]
    have "n1 \<le> 7" "(n1 = 7) = list_all (\<lambda>j. d ! j > m) ?js"
      by (simp_all add: eval_nat_numeral)
    then show ?thesis unfolding res p1 using gt by (auto simp del: One_nat_def)
  next
    case lt
    then have "fold (delta_step d m) ?js ([i], 1, Some False) = (p1, n1, a1)"
      using f by simp
    from delta_chain [OF _ js this]
    have "n1 \<le> 7" "(n1 = 7) = list_all (\<lambda>j. d ! j < m) ?js"
      by (simp_all add: eval_nat_numeral)
    then show ?thesis unfolding res p1 using lt by (auto simp del: One_nat_def)
  next
    case eq
    then have "fold (delta_step d m) ?js ([i], 0, Some False) = (p1, n1, a1)"
      using f by simp
    from delta_chain [OF _ js this]
    have "n1 \<le> 6" by (simp add: eval_nat_numeral)
    then show ?thesis unfolding res p1 using eq by (auto simp del: One_nat_def)
  qed
qed

lemma delta_iff:
  "delta d m i =
     (if i + 7 \<le> length d \<and>
         (list_all (\<lambda>v. v > m) (map ((!) d) [i, i + 1, i + 2, i + 3, i + 4, i + 5, i + 6]) \<or>
          list_all (\<lambda>v. v < m) (map ((!) d) [i, i + 1, i + 2, i + 3, i + 4, i + 5, i + 6]))
      then Some [i, i + 1, i + 2, i + 3, i + 4, i + 5, i + 6] else None)"
proof (cases "i + 7 \<le> length d")
  case True
  then show ?thesis using delta_full [OF True] by simp
next
  case False
  then have "delta d m i = None" by (intro delta_short) simp
  then show ?thesis using False by simp
qed

text \<open>
  The delta, echo and hotel fields of the uncollapsed report hold the windows that fire at
  the start indices 0, 1 and 2, in this order, and nothing else.
\<close>

lemma field_of_emit_same:
  assumes "field_of p me = Some (FArr es)"
  shows "field_of (emit p me r) me =
           Some (FArr (es @ (case r of None \<Rightarrow> [] | Some pts \<Rightarrow> [A (map real pts)])))"
  using assms by (cases r) (simp_all add: field_of_push_same)

lemma round_fields:
  assumes "field_of p ''delta'' = Some (FArr ds)" and "field_of p ''echo'' = Some (FArr es)"
    and "field_of p ''hotel'' = Some (FArr hs)"
  shows "field_of (emit (emit (emit p ''delta'' r1) ''echo'' r2) ''hotel'' r3) ''delta'' =
           Some (FArr (ds @ (case r1 of None \<Rightarrow> [] | Some pts \<Rightarrow> [A (map real pts)])))"
    and "field_of (emit (emit (emit p ''delta'' r1) ''echo'' r2) ''hotel'' r3) ''echo'' =
           Some (FArr (es @ (case r2 of None \<Rightarrow> [] | Some pts \<Rightarrow> [A (map real pts)])))"
    and "field_of (emit (emit (emit p ''delta'' r1) ''echo'' r2) ''hotel'' r3) ''hotel'' =
           Some (FArr (hs @ (case r3 of None \<Rightarrow> [] | Some pts \<Rightarrow> [A (map real pts)])))"
proof -
  let ?p1 = "emit p ''delta'' r1"
  let ?p2 = "emit ?p1 ''echo'' r2"
  have e1: "field_of ?p1 ''echo'' = Some (FArr es)"
    using assms(2) by (simp add: field_of_emit_other)
  have h2: "field_of ?p2 ''hotel'' = Some (FArr hs)"
    using assms(3) by (simp add: field_of_emit_other)
  show "field_of (emit ?p2 ''hotel'' r3) ''delta'' =
           Some (FArr (ds @ (case r1 of None \<Rightarrow> [] | Some pts \<Rightarrow> [A (map real pts)])))"
    using field_of_emit_same [OF assms(1), of r1] by (simp add: field_of_emit_other)
  show "field_of (emit ?p2 ''hotel'' r3) ''echo'' =
           Some (FArr (es @ (case r2 of None \<Rightarrow> [] | Some pts \<Rightarrow> [A (map real pts)])))"
    using field_of_emit_same [OF e1, of r2] by (simp add: field_of_emit_other)
  show "field_of (emit ?p2 ''hotel'' r3) ''hotel'' =
           Some (FArr (hs @ (case r3 of None \<Rightarrow> [] | Some pts \<Rightarrow> [A (map real pts)])))"
    by (rule field_of_emit_same [OF h2])
qed

lemma patterns_data_fields:
  assumes "patterns rd c d False = Inr r"
  shows "field_of r ''delta'' =
           Some (FArr (map (\<lambda>pts. A (map real pts)) (List.map_filter (delta d (ss_mean d)) [0, 1, 2])))"
    and "field_of r ''echo'' =
           Some (FArr (map (\<lambda>pts. A (map real pts)) (List.map_filter (echo d) [0, 1, 2])))"
    and "field_of r ''hotel'' =
           Some (FArr (map (\<lambda>pts. A (map real pts)) (List.map_filter (hotel d) [0, 1, 2])))"
proof -
  let ?m = "ss_mean d"
  let ?p0 = "initial_report c ?m (ss_standardDeviation d)"
  let ?p1 = "emit (emit (emit ?p0 ''delta'' (delta d ?m 0)) ''echo'' (echo d 0)) ''hotel'' (hotel d 0)"
  let ?p2 = "emit (emit (emit ?p1 ''delta'' (delta d ?m 1)) ''echo'' (echo d 1)) ''hotel'' (hotel d 1)"
  let ?p3 = "emit (emit (emit ?p2 ''delta'' (delta d ?m 2)) ''echo'' (echo d 2)) ''hotel'' (hotel d 2)"
  have ne: "4 \<le> length d" by (rule patterns_Inr_length [OF assms])
  have r: "r = ?p3" using assms unfolding patterns_emits [OF ne] by (simp add: Let_def)
  have i: "field_of ?p0 ''delta'' = Some (FArr [])" "field_of ?p0 ''echo'' = Some (FArr [])"
    "field_of ?p0 ''hotel'' = Some (FArr [])"
    by (simp_all add: field_of_def initial_report_def)
  note a = round_fields [OF i]
  note b = round_fields [OF a]
  note c = round_fields [OF b]
  show "field_of r ''delta'' =
           Some (FArr (map (\<lambda>pts. A (map real pts)) (List.map_filter (delta d ?m) [0, 1, 2])))"
    unfolding r c(1) by (simp add: List.map_filter_def split: option.splits del: One_nat_def)
  show "field_of r ''echo'' =
           Some (FArr (map (\<lambda>pts. A (map real pts)) (List.map_filter (echo d) [0, 1, 2])))"
    unfolding r c(2) by (simp add: List.map_filter_def split: option.splits del: One_nat_def)
  show "field_of r ''hotel'' =
           Some (FArr (map (\<lambda>pts. A (map real pts)) (List.map_filter (hotel d) [0, 1, 2])))"
    unfolding r c(3) by (simp add: List.map_filter_def split: option.splits del: One_nat_def)
qed

end
